theory Spec2Isabelle
  imports Main
begin

section \<open>The data model of the container\<close>

text \<open>
  The development embeds the lookup engine of \<^verbatim>\<open>to-use\<close> as it is written in
  \<^verbatim>\<open>src/unnamed/part_001\<close> (the TypeScript source of the module the package builds and
  tests). Keys, contexts and functions are compared by identity in the source; here each
  is a number that stands for that identity.
\<close>

type_synonym key = nat
type_synonym cid = nat
type_synonym fid = nat

datatype errclass = Error | TypeError | ReferenceError

text \<open>
  JavaScript values as far as the engine can tell them apart with \<^verbatim>\<open>===\<close>: primitives by
  value, objects, error objects, functions and contexts by identity. \<open>ErrObj i cls msg\<close>
  is the error object with identity \<open>i\<close>; \<open>DefaultLookup\<close> is the function
  \<^verbatim>\<open>defaultLookup\<close> of the module.
\<close>

datatype val =
    Prim int
  | Obj nat
  | ErrObj nat errclass string
  | Fn fid
  | DefaultLookup
  | Ctx cid
  | Bool bool

text \<open>\<^verbatim>\<open>const enum State { wasRead = 0, hasValue, hasFactory, hasError, isCreating }\<close>\<close>

datatype State = wasRead | hasValue | hasFactory | hasError | isCreating

text \<open>\<^verbatim>\<open>type Deps<T> = {c: Context, k: Key[], f: Factory<T>}\<close>\<close>

record Deps =
  deps_c :: cid
  deps_f :: val
  deps_k :: "key list"

text \<open>\<^verbatim>\<open>type Entry<T> = {s: State, v: T | Factory<T>, d?: Deps<T>}\<close>\<close>

record Entry =
  ent_s :: State
  ent_v :: val
  ent_d :: "Deps option"

text \<open>
  The mutable world of the module: every registry (\<open>ents c\<close> is the \<^verbatim>\<open>Map\<close> of context
  \<open>c\<close>), the \<^verbatim>\<open>prev\<close> links, and the two module variables \<^verbatim>\<open>ctx\<close> and \<^verbatim>\<open>used\<close>. A
  registry's \<^verbatim>\<open>prev\<close> link is fixed when the context is created, so \<open>prevs c\<close> holds the
  whole chain \<^verbatim>\<open>registry.prev, registry.prev.prev, ...\<close> of context \<open>c\<close>, nearest first;
  it is empty exactly for the global context, whose \<^verbatim>\<open>prev\<close> is undefined. \<open>nctx\<close> and
  \<open>nobj\<close> are the identities the next context and the next object will get.
\<close>

record world =
  ents :: "cid \<Rightarrow> key \<Rightarrow> Entry option"
  prevs :: "cid \<Rightarrow> cid list"
  nctx :: nat
  ctx :: "cid option"
  used :: "key list option"
  nobj :: nat

text \<open>
  Factories, recipes and constructors are code of the caller. A body is a program over
  the operations a caller has: return, throw, create an object, call a context, read
  \<^verbatim>\<open>use.this\<close>, \<^verbatim>\<open>set\<close>, \<^verbatim>\<open>def\<close>, \<^verbatim>\<open>fork\<close> and \<^verbatim>\<open>try/catch\<close>. \<open>Use c k cont\<close> is
  \<^verbatim>\<open>c(k)\<close> followed by \<open>cont\<close> on its result; \<open>Try p h cont\<close> runs \<open>p\<close>, then \<open>cont\<close> on
  its result or \<open>h\<close> on what it threw.
\<close>

datatype prog =
    Return val
  | Throw val
  | ThrowNew errclass string
  | New "val \<Rightarrow> prog"
  | Use cid key "val \<Rightarrow> prog"
  | This "cid \<Rightarrow> prog"
  | Set cid key val prog
  | Def cid key val prog
  | Fork cid "cid \<Rightarrow> prog"
  | Try prog "val \<Rightarrow> prog" "val \<Rightarrow> prog"

text \<open>
  What \<^verbatim>\<open>defaultLookup\<close> finds out about a key: it has a \<^verbatim>\<open>[use.me]\<close> method, or
  \<^verbatim>\<open>isClass\<close> holds of it and it has a constructor, or neither.
\<close>

datatype key_shape = Recipe fid | Class fid | Plain

text \<open>
  The code around the engine: the body of every function (given the context and the key
  it is called with), the shape of every key, and \<^verbatim>\<open>String(...)\<close> of keys and values.
  A context is an object like any other and can be passed where a key is expected;
  \<open>ctx_key c\<close> is the key that the context \<open>c\<close> is then.
\<close>

record env =
  fns :: "fid \<Rightarrow> cid \<Rightarrow> key \<Rightarrow> prog"
  shape :: "key \<Rightarrow> key_shape"
  key_str :: "key \<Rightarrow> string"
  val_str :: "val \<Rightarrow> string"
  ctx_key :: "cid \<Rightarrow> key"

datatype outcome = Returns val | Throws val

section \<open>The operations\<close>

definition upd_entry :: "cid \<Rightarrow> key \<Rightarrow> Entry \<Rightarrow> world \<Rightarrow> world" where
  "upd_entry c K e st = st\<lparr>ents := (ents st)(c := (ents st c)(K \<mapsto> e))\<rparr>"

text \<open>A write to fields of the entry object of \<open>K\<close> in registry \<open>c\<close>.\<close>

definition mod_entry :: "cid \<Rightarrow> key \<Rightarrow> (Entry \<Rightarrow> Entry) \<Rightarrow> world \<Rightarrow> world" where
  "mod_entry c K g st = (case ents st c K of None \<Rightarrow> st | Some e \<Rightarrow> upd_entry c K (g e) st)"

text \<open>\<^verbatim>\<open>new X(msg)\<close>: a fresh error object.\<close>

definition new_error :: "errclass \<Rightarrow> string \<Rightarrow> world \<Rightarrow> val \<times> world" where
  "new_error cls msg st = (ErrObj (nobj st) cls msg, st\<lparr>nobj := Suc (nobj st)\<rparr>)"

text \<open>
  \<^verbatim>\<open>for(let r = registry.prev; r; r = r.prev) { if (entry = r.get(key)) ... break }\<close>
\<close>

fun find_prev :: "world \<Rightarrow> cid list \<Rightarrow> key \<Rightarrow> Entry option" where
  "find_prev st [] K = None"
| "find_prev st (r # rs) K =
     (case ents st r K of Some e \<Rightarrow> Some e | None \<Rightarrow> find_prev st rs K)"

text \<open>
  The head of the lookup function:
  \<^verbatim>\<open>
  let entry = registry.get(key);
  if (!entry) {
      for(...) { if (entry = r.get(key)) { entry = {...entry, s: entry.s || State.hasValue}; break } }
      entry = entry || {s: State.hasFactory, v: defaultLookup}
      registry.set(key, entry);
  }
  \<close>
\<close>

definition materialize :: "cid \<Rightarrow> key \<Rightarrow> world \<Rightarrow> world" where
  "materialize c K st =
     (case ents st c K of
        Some e \<Rightarrow> st
      | None \<Rightarrow>
          upd_entry c K
            (case find_prev st (prevs st c) K of
               Some e \<Rightarrow> e\<lparr>ent_s := (if ent_s e = wasRead then hasValue else ent_s e)\<rparr>
             | None \<Rightarrow> \<lparr>ent_s = hasFactory, ent_v = DefaultLookup, ent_d = None\<rparr>)
            st)"

text \<open>
  \<^verbatim>\<open>
  function setEntry(reg, key, s, v) {
      if (reg.has(key)) {
          const entry = reg.get(key);
          if (!entry.s) throw new Error(`Already read: ${String(key)}`);
          entry.s = s; entry.v = v; entry.d = null;
      } else reg.set(key, {s, v});
  }
  \<close>
  The result is the error thrown, if any, and the world after the call.
\<close>

definition setEntry :: "env \<Rightarrow> cid \<Rightarrow> key \<Rightarrow> State \<Rightarrow> val \<Rightarrow> world \<Rightarrow> val option \<times> world" where
  "setEntry en r K s v st =
     (case ents st r K of
        Some e \<Rightarrow>
          if ent_s e = wasRead
          then (let (x, st') = new_error Error (''Already read: '' @ key_str en K) st
                in (Some x, st'))
          else (None, upd_entry r K \<lparr>ent_s = s, ent_v = v, ent_d = None\<rparr> st)
      | None \<Rightarrow> (None, upd_entry r K \<lparr>ent_s = s, ent_v = v, ent_d = None\<rparr> st))"

text \<open>\<^verbatim>\<open>if (ctx === me && used) used.push(key);\<close>\<close>

definition note_read :: "cid \<Rightarrow> key \<Rightarrow> world \<Rightarrow> world" where
  "note_read c K st =
     (case used st of
        Some ks \<Rightarrow> if ctx st = Some c then st\<lparr>used := Some (ks @ [K])\<rparr> else st
      | None \<Rightarrow> st)"

text \<open>
  \<^verbatim>\<open>exec\<close> sets \<^verbatim>\<open>ctx = me; used = deps\<close> before the call and puts the old values back
  in its \<^verbatim>\<open>finally\<close>.
\<close>

definition enter :: "cid \<Rightarrow> key list option \<Rightarrow> world \<Rightarrow> world" where
  "enter c deps st = st\<lparr>ctx := Some c, used := deps\<rparr>"

definition restore :: "world \<Rightarrow> world \<Rightarrow> world" where
  "restore old st = st\<lparr>ctx := ctx old, used := used old\<rparr>"

text \<open>The array \<^verbatim>\<open>keys\<close> that \<^verbatim>\<open>used\<close> pointed to while the factory ran.\<close>

definition log_of :: "world \<Rightarrow> key list" where
  "log_of st = (case used st of None \<Rightarrow> [] | Some ks \<Rightarrow> ks)"

text \<open>
  \<^verbatim>\<open>
  function defaultLookup(ctx, key) {
      if (typeof key[useMe] === "function") return key[useMe](ctx, key);
      if (isClass(key)) return new key();
      throw new ReferenceError(`No config for ${String(key)}`);
  }
  \<close>
\<close>

definition defaultLookup :: "env \<Rightarrow> cid \<Rightarrow> key \<Rightarrow> prog" where
  "defaultLookup en me K =
     (case shape en K of
        Recipe g \<Rightarrow> fns en g me K
      | Class g \<Rightarrow> fns en g me K
      | Plain \<Rightarrow> ThrowNew ReferenceError (''No config for '' @ key_str en K))"

text \<open>
  \<^verbatim>\<open>fn(me, key)\<close> in \<^verbatim>\<open>exec\<close>. A context is a function of one parameter, the key: when the
  payload is a context \<open>t\<close>, the call is \<^verbatim>\<open>t(me)\<close>, the lookup in \<open>t\<close> of the context \<open>me\<close>
  taken as a key (the second argument is ignored). Calling a value that is no function
  throws a TypeError.
\<close>

definition apply_fn :: "env \<Rightarrow> val \<Rightarrow> cid \<Rightarrow> key \<Rightarrow> prog" where
  "apply_fn en fv me K =
     (case fv of
        Fn g \<Rightarrow> fns en g me K
      | DefaultLookup \<Rightarrow> defaultLookup en me K
      | Ctx t \<Rightarrow> Use t (ctx_key en me) Return
      | _ \<Rightarrow> ThrowNew TypeError ''fn is not a function'')"

text \<open>\<^verbatim>\<open>newCtx(registry)\<close>: a context with an empty registry whose \<^verbatim>\<open>prev\<close> is \<open>c\<close>'s.\<close>

definition fork :: "cid \<Rightarrow> world \<Rightarrow> cid \<times> world" where
  "fork c st = (nctx st, st\<lparr>prevs := (prevs st)(nctx st := c # prevs st c), nctx := Suc (nctx st)\<rparr>)"

definition cycle_msg :: "env \<Rightarrow> val \<Rightarrow> key \<Rightarrow> string" where
  "cycle_msg en fv K = ''Factory '' @ val_str en fv @ '' didn't resolve '' @ key_str en K"

text \<open>
  The lookup function of a context and the programs it runs call each other, so they are
  defined together, as the tasks of one function \<open>step\<close>. Its number bounds the depth of
  calls still allowed; \<open>None\<close> means the bound was reached.
  \<^item> \<open>Run p\<close> executes a program of the caller;
  \<^item> \<open>Invoke c K\<close> is the call \<^verbatim>\<open>c(key)\<close>: the global context delegates to
    \<^verbatim>\<open>use.this\<close>, any other finds or creates its entry and enters the loop;
  \<^item> \<open>Loop c K\<close> is \<^verbatim>\<open>for(;;) switch (entry.s)\<close>;
  \<^item> \<open>Resolve c K\<close> is the block of \<^verbatim>\<open>case State.hasFactory\<close>, which the
    \<^verbatim>\<open>hasValue\<close> case falls through to;
  \<^item> \<open>Validate c ob ks\<close> is \<^verbatim>\<open>ks.every((k) => me(k) === deps.c(k))\<close> with \<open>ob\<close> for
    \<^verbatim>\<open>deps.c\<close>.
\<close>

datatype task =
    Run prog
  | Invoke cid key
  | Loop cid key
  | Resolve cid key
  | Validate cid cid "key list"

primrec step :: "env \<Rightarrow> nat \<Rightarrow> task \<Rightarrow> world \<Rightarrow> (outcome \<times> world) option" where
  "step en 0 t st = None"
| "step en (Suc n) t st =
     (case t of
        Run p \<Rightarrow>
          (case p of
             Return x \<Rightarrow> Some (Returns x, st)
           | Throw x \<Rightarrow> Some (Throws x, st)
           | ThrowNew cls msg \<Rightarrow> (let (x, st') = new_error cls msg st in Some (Throws x, st'))
           | New cont \<Rightarrow> step en n (Run (cont (Obj (nobj st)))) (st\<lparr>nobj := Suc (nobj st)\<rparr>)
           | Use c K cont \<Rightarrow>
               (case step en n (Invoke c K) st of
                  None \<Rightarrow> None
                | Some (Throws x, st') \<Rightarrow> Some (Throws x, st')
                | Some (Returns x, st') \<Rightarrow> step en n (Run (cont x)) st')
           | This cont \<Rightarrow>
               (case ctx st of
                  None \<Rightarrow> (let (x, st') = new_error TypeError ''No current context'' st
                           in Some (Throws x, st'))
                | Some a \<Rightarrow> step en n (Run (cont a)) st)
           | Set c K x p' \<Rightarrow>
               (case setEntry en c K hasValue x st of
                  (Some err, st') \<Rightarrow> Some (Throws err, st')
                | (None, st') \<Rightarrow> step en n (Run p') st')
           | Def c K fv p' \<Rightarrow>
               (case setEntry en c K hasFactory fv st of
                  (Some err, st') \<Rightarrow> Some (Throws err, st')
                | (None, st') \<Rightarrow> step en n (Run p') st')
           | Fork c cont \<Rightarrow> (let (c', st') = fork c st in step en n (Run (cont c')) st')
           | Try p' h cont \<Rightarrow>
               (case step en n (Run p') st of
                  None \<Rightarrow> None
                | Some (Returns x, st') \<Rightarrow> step en n (Run (cont x)) st'
                | Some (Throws x, st') \<Rightarrow> step en n (Run (h x)) st'))
      | Invoke c K \<Rightarrow>
          (if prevs st c = []
           then (case ctx st of
                   None \<Rightarrow> (let (x, st') = new_error TypeError ''No current context'' st
                            in Some (Throws x, st'))
                 | Some a \<Rightarrow> step en n (Invoke a K) st)
           else step en n (Loop c K) (materialize c K st))
      | Loop c K \<Rightarrow>
          (case ents st c K of
             None \<Rightarrow> None
           | Some e \<Rightarrow>
               (case ent_s e of
                  wasRead \<Rightarrow> Some (Returns (ent_v e), note_read c K st)
                | hasValue \<Rightarrow>
                    (case ent_d e of
                       None \<Rightarrow> step en n (Loop c K) (mod_entry c K (\<lambda>e. e\<lparr>ent_s := wasRead\<rparr>) st)
                     | Some deps \<Rightarrow>
                         (case step en n (Validate c (deps_c deps) (deps_k deps)) (enter c None st) of
                            None \<Rightarrow> None
                          | Some (Throws x, st') \<Rightarrow> Some (Throws x, restore st st')
                          | Some (Returns b, st') \<Rightarrow>
                              if b = Bool True
                              then step en n (Loop c K)
                                     (mod_entry c K (\<lambda>e. e\<lparr>ent_s := wasRead\<rparr>) (restore st st'))
                              else step en n (Resolve c K)
                                     (mod_entry c K (\<lambda>e. e\<lparr>ent_v := deps_f deps\<rparr>) (restore st st'))))
                | hasFactory \<Rightarrow> step en n (Resolve c K) st
                | hasError \<Rightarrow> Some (Throws (ent_v e), st)
                | isCreating \<Rightarrow>
                    (let (x, st') = new_error Error (cycle_msg en (ent_v e) K) st
                     in Some (Throws x, st'))))
      | Resolve c K \<Rightarrow>
          (case ents st c K of
             None \<Rightarrow> None
           | Some e \<Rightarrow>
               (let st1 = mod_entry c K (\<lambda>e. e\<lparr>ent_s := isCreating\<rparr>) st;
                    factory = ent_v e
                in case step en n (Run (apply_fn en factory c K)) (enter c (Some []) st1) of
                     None \<Rightarrow> None
                   | Some (Throws x, st') \<Rightarrow>
                       Some (Throws x,
                         mod_entry c K (\<lambda>e. \<lparr>ent_s = hasError, ent_v = x, ent_d = None\<rparr>)
                           (restore st1 st'))
                   | Some (Returns x, st') \<Rightarrow>
                       (case setEntry en c K wasRead x (restore st1 st') of
                          (Some err, st2) \<Rightarrow>
                            Some (Throws err,
                              mod_entry c K (\<lambda>e. \<lparr>ent_s = hasError, ent_v = err, ent_d = None\<rparr>) st2)
                        | (None, st2) \<Rightarrow>
                            step en n (Loop c K)
                              (if log_of st' \<noteq> []
                               then mod_entry c K
                                      (\<lambda>e. e\<lparr>ent_d := Some \<lparr>deps_c = c, deps_f = factory,
                                                             deps_k = log_of st'\<rparr>\<rparr>)
                                      st2
                               else st2))))
      | Validate c ob ks \<Rightarrow>
          (case ks of
             [] \<Rightarrow> Some (Returns (Bool True), st)
           | k # ks' \<Rightarrow>
               (case step en n (Invoke c k) st of
                  None \<Rightarrow> None
                | Some (Throws x, st1) \<Rightarrow> Some (Throws x, st1)
                | Some (Returns a, st1) \<Rightarrow>
                    (case step en n (Invoke ob k) st1 of
                       None \<Rightarrow> None
                     | Some (Throws x, st2) \<Rightarrow> Some (Throws x, st2)
                     | Some (Returns b, st2) \<Rightarrow>
                         if a = b then step en n (Validate c ob ks') st2
                         else Some (Returns (Bool False), st2)))))"

definition run :: "env \<Rightarrow> nat \<Rightarrow> prog \<Rightarrow> world \<Rightarrow> (outcome \<times> world) option" where
  "run en n p st = step en n (Run p) st"

definition invoke :: "env \<Rightarrow> nat \<Rightarrow> cid \<Rightarrow> key \<Rightarrow> world \<Rightarrow> (outcome \<times> world) option" where
  "invoke en n c K st = step en n (Invoke c K) st"

definition loop :: "env \<Rightarrow> nat \<Rightarrow> cid \<Rightarrow> key \<Rightarrow> world \<Rightarrow> (outcome \<times> world) option" where
  "loop en n c K st = step en n (Loop c K) st"

definition resolve :: "env \<Rightarrow> nat \<Rightarrow> cid \<Rightarrow> key \<Rightarrow> world \<Rightarrow> (outcome \<times> world) option" where
  "resolve en n c K st = step en n (Resolve c K) st"

definition validate :: "env \<Rightarrow> nat \<Rightarrow> cid \<Rightarrow> cid \<Rightarrow> key list \<Rightarrow> world \<Rightarrow> (outcome \<times> world) option" where
  "validate en n c ob ks st = step en n (Validate c ob ks) st"

text \<open>The methods \<^verbatim>\<open>set\<close> and \<^verbatim>\<open>def\<close> of context \<open>c\<close>.\<close>

definition ctx_set :: "env \<Rightarrow> cid \<Rightarrow> key \<Rightarrow> val \<Rightarrow> world \<Rightarrow> val option \<times> world" where
  "ctx_set en c K x st = setEntry en c K hasValue x st"

definition ctx_def :: "env \<Rightarrow> cid \<Rightarrow> key \<Rightarrow> val \<Rightarrow> world \<Rightarrow> val option \<times> world" where
  "ctx_def en c K fv st = setEntry en c K hasFactory fv st"

text \<open>The world when the module has been loaded: only the global context exists.\<close>

definition init :: world where
  "init = \<lparr>ents = (\<lambda>c K. None), prevs = (\<lambda>c. []), nctx = 1, ctx = None, used = None, nobj = 0\<rparr>"

section \<open>What a completed task preserves\<close>

text \<open>
  \<open>ext X st st'\<close>: every entry of \<open>st\<close> is still there in \<open>st'\<close>, every context that had
  a \<^verbatim>\<open>prev\<close> still has one, and every entry that was read (\<open>wasRead\<close>) in \<open>st\<close> is
  unchanged in \<open>st'\<close>, but for the entries in \<open>X\<close>. The block \<open>Resolve c K\<close> is entered with
  the entry of \<open>K\<close> in any state, so that entry is its exception.
\<close>

definition target :: "task \<Rightarrow> (cid \<times> key) set" where
  "target t = (case t of Resolve c K \<Rightarrow> {(c, K)} | _ \<Rightarrow> {})"

definition ext :: "(cid \<times> key) set \<Rightarrow> world \<Rightarrow> world \<Rightarrow> bool" where
  "ext X st st' \<longleftrightarrow>
     (\<forall>c K. ents st c K \<noteq> None \<longrightarrow> ents st' c K \<noteq> None) \<and>
     (\<forall>c. prevs st c \<noteq> [] \<longrightarrow> prevs st' c \<noteq> []) \<and>
     (\<forall>c K e. (c, K) \<notin> X \<longrightarrow> ents st c K = Some e \<longrightarrow> ent_s e = wasRead \<longrightarrow>
        ents st' c K = Some e)"

text \<open>
  The ambient context is as before, and a dependency log that was switched off is still
  switched off.
\<close>

definition amb :: "world \<Rightarrow> world \<Rightarrow> bool" where
  "amb st st' \<longleftrightarrow> ctx st' = ctx st \<and> (used st = None \<longrightarrow> used st' = None)"

text \<open>What a completed task leaves as it found it.\<close>

definition kept :: "task \<Rightarrow> world \<Rightarrow> world \<Rightarrow> bool" where
  "kept t st st' \<longleftrightarrow> ext (target t) st st' \<and> amb st st'"

definition kept_below :: "env \<Rightarrow> nat \<Rightarrow> bool" where
  "kept_below en n \<longleftrightarrow> (\<forall>t st r st'. step en n t st = Some (r, st') \<longrightarrow> kept t st st')"

text \<open>A lookup returns only from the case \<open>wasRead\<close>: what it returns is the payload.\<close>

definition is_read :: "world \<Rightarrow> cid \<Rightarrow> key \<Rightarrow> val \<Rightarrow> bool" where
  "is_read st c K x \<longleftrightarrow> (\<exists>e. ents st c K = Some e \<and> ent_s e = wasRead \<and> ent_v e = x)"


text \<open>
  The check of smart sharing as the specification words it. \<open>all_same en c ob ks st st'\<close>:
  taken in the order of \<open>ks\<close>, every key resolves in context \<open>c\<close> and then in the origin
  context \<open>ob\<close> to the same value, and the lookups lead from \<open>st\<close> to \<open>st'\<close>.
  \<open>differs_at en c ob ks st st'\<close>: the keys before some key of \<open>ks\<close> all agree, that key
  resolves to two different values, and \<open>st'\<close> is the world right after its two lookups: no
  later key is looked up.
\<close>

inductive all_same :: "env \<Rightarrow> cid \<Rightarrow> cid \<Rightarrow> key list \<Rightarrow> world \<Rightarrow> world \<Rightarrow> bool"
  for en :: env and c :: cid and ob :: cid where
  all_same_Nil: "all_same en c ob [] st st"
| all_same_Cons:
    "invoke en n1 c k st = Some (Returns a, s1) \<Longrightarrow>
     invoke en n2 ob k s1 = Some (Returns a, s2) \<Longrightarrow>
     all_same en c ob ks s2 s3 \<Longrightarrow>
     all_same en c ob (k # ks) st s3"


text \<open>
  Which contexts a program of the caller addresses. \<open>avoids U W p\<close>: whatever values and
  contexts \<open>p\<close> is handed, it calls no context of \<open>U\<close> and calls \<^verbatim>\<open>set\<close> and \<^verbatim>\<open>def\<close> on no
  context of \<open>W\<close>; it may do both with the current context and with the contexts it forks,
  as long as these are outside \<open>W\<close>. It registers no context of \<open>U\<close> as a factory either: the
  engine would call it.
\<close>

primrec avoids :: "cid set \<Rightarrow> cid set \<Rightarrow> prog \<Rightarrow> bool" where
  "avoids U W (Return x) = True"
| "avoids U W (Throw x) = True"
| "avoids U W (ThrowNew cls msg) = True"
| "avoids U W (New cont) = (\<forall>v. avoids U W (cont v))"
| "avoids U W (Use t K cont) = (t \<notin> U \<and> (\<forall>v. avoids U W (cont v)))"
| "avoids U W (This cont) = (\<forall>a. a \<notin> W \<longrightarrow> avoids U W (cont a))"
| "avoids U W (Set t K x p) = (t \<notin> W \<and> avoids U W p)"
| "avoids U W (Def t K fv p) = (t \<notin> W \<and> fv \<notin> Ctx ` U \<and> avoids U W p)"
| "avoids U W (Fork t cont) = (\<forall>ch. ch \<notin> W \<longrightarrow> avoids U W (cont ch))"
| "avoids U W (Try p h cont) =
     (avoids U W p \<and> (\<forall>v. avoids U W (h v)) \<and> (\<forall>v. avoids U W (cont v)))"

text \<open>Every function of the environment, called with a context outside \<open>W\<close>, is such a program.\<close>

definition env_ok :: "cid set \<Rightarrow> cid set \<Rightarrow> env \<Rightarrow> bool" where
  "env_ok U W en \<longleftrightarrow> (\<forall>f me K. me \<notin> W \<longrightarrow> avoids U W (fns en f me K))"

text \<open>The dependency records that entries of the world carry.\<close>

definition records :: "world \<Rightarrow> Deps set" where
  "records st = {dp. \<exists>c K e. ents st c K = Some e \<and> ent_d e = Some dp}"

text \<open>
  A factory logs a key when its lookup in the factory's context returns, so every key of a
  record has been read in the record's context. \<open>deps_sound U st\<close> says so of the records
  whose context is in \<open>U\<close>.
\<close>

definition deps_sound :: "cid set \<Rightarrow> world \<Rightarrow> bool" where
  "deps_sound U st \<longleftrightarrow>
     (\<forall>dp\<in>records st. deps_c dp \<in> U \<longrightarrow> (\<forall>k\<in>set (deps_k dp). \<exists>x. is_read st (deps_c dp) k x))"

text \<open>
  The payloads that the engine may come to call are the payload of an entry in state
  \<open>hasFactory\<close> and the factory of a dependency record. \<open>payload_ok U st\<close>: none of them is
  a context of \<open>U\<close>.
\<close>

definition entry_ok :: "cid set \<Rightarrow> Entry \<Rightarrow> bool" where
  "entry_ok U e \<longleftrightarrow>
     (ent_s e = hasFactory \<longrightarrow> ent_v e \<notin> Ctx ` U) \<and>
     (\<forall>dp. ent_d e = Some dp \<longrightarrow> deps_f dp \<notin> Ctx ` U)"

definition payload_ok :: "cid set \<Rightarrow> world \<Rightarrow> bool" where
  "payload_ok U st \<longleftrightarrow> (\<forall>c K e. ents st c K = Some e \<longrightarrow> entry_ok U e)"

text \<open>
  The contexts of \<open>W\<close> exist, those of \<open>U\<close> are its regular ones, the others are global,
  the records are sound and no payload to be called is a context of \<open>U\<close>.
\<close>

definition world_ok :: "cid set \<Rightarrow> cid set \<Rightarrow> world \<Rightarrow> bool" where
  "world_ok U W st \<longleftrightarrow>
     U \<subseteq> W \<and> (\<forall>a\<in>W. a < nctx st \<and> (prevs st a \<noteq> [] \<longleftrightarrow> a \<in> U)) \<and> deps_sound U st \<and>
     payload_ok U st"

text \<open>
  \<open>frame U W st st'\<close>: the registries and \<^verbatim>\<open>prev\<close> links of the contexts in \<open>W\<close> are in \<open>st'\<close>
  what they were in \<open>st\<close>, no context has been removed, \<open>st'\<close> has no record of a context
  in \<open>U\<close> that \<open>st\<close> had not, and no payload to be called has become a context of \<open>U\<close>.
\<close>

definition frame :: "cid set \<Rightarrow> cid set \<Rightarrow> world \<Rightarrow> world \<Rightarrow> bool" where
  "frame U W st st' \<longleftrightarrow>
     (\<forall>a\<in>W. ents st' a = ents st a \<and> prevs st' a = prevs st a) \<and>
     nctx st \<le> nctx st' \<and>
     (\<forall>dp\<in>records st'. deps_c dp \<in> U \<longrightarrow> dp \<in> records st) \<and>
     (payload_ok U st \<longrightarrow> payload_ok U st')"

text \<open>The ambient context, if there is one, is outside \<open>W\<close>.\<close>

definition amb_ok :: "cid set \<Rightarrow> world \<Rightarrow> bool" where
  "amb_ok W st \<longleftrightarrow> (\<forall>a. ctx st = Some a \<longrightarrow> a \<notin> W)"

text \<open>What a task is started with, in the runs considered.\<close>

definition task_ok :: "cid set \<Rightarrow> cid set \<Rightarrow> task \<Rightarrow> world \<Rightarrow> bool" where
  "task_ok U W t st =
     (case t of
        Run p \<Rightarrow> avoids U W p \<and> amb_ok W st
      | Invoke c K \<Rightarrow>
          (c \<in> U \<longrightarrow> (\<exists>x. is_read st c K x)) \<and> (prevs st c = [] \<longrightarrow> amb_ok W st)
      | Loop c K \<Rightarrow> c \<notin> W \<or> (\<exists>x. is_read st c K x)
      | Resolve c K \<Rightarrow> c \<notin> W \<and> (\<forall>e. ents st c K = Some e \<longrightarrow> ent_v e \<notin> Ctx ` U)
      | Validate c ob ks \<Rightarrow>
          c \<notin> U \<and> amb_ok W st \<and> (ob \<in> U \<longrightarrow> (\<forall>k\<in>set ks. \<exists>x. is_read st ob k x)))"

definition framed_below :: "env \<Rightarrow> cid set \<Rightarrow> cid set \<Rightarrow> nat \<Rightarrow> bool" where
  "framed_below en U W n \<longleftrightarrow>
     (\<forall>t st r st'. step en n t st = Some (r, st') \<longrightarrow> world_ok U W st \<longrightarrow> task_ok U W t st \<longrightarrow>
        frame U W st st')"

text \<open>The ancestors of a context, and the regular contexts among a set of contexts.\<close>

definition ancestors :: "world \<Rightarrow> cid \<Rightarrow> cid set" where
  "ancestors st c = set (prevs st c)"

definition regular_of :: "world \<Rightarrow> cid set \<Rightarrow> cid set" where
  "regular_of st A = {a \<in> A. prevs st a \<noteq> []}"

section \<open>Example worlds\<close>

definition demo_env :: env where
  "demo_env =
     \<lparr>fns = (\<lambda>g me K.
              if g = 1 then New Return
              else if g = 2 then Use 0 5 (\<lambda>a. New Return)
              else if g = 3 then Use me K Return
              else if g = 4 then Try (Use me K Return) (\<lambda>e. Return (Prim 1)) Return
              else if g = 5 then ThrowNew Error ''boom''
              else if g = 6
                then Fork me (\<lambda>ch. Try (Use ch K Return)
                       (\<lambda>a. Try (Use ch K Return) (\<lambda>b. Return (Bool (a = b))) Return) Return)
              else if g = 7 then Use 1 K Return
              else if g = 8
                then Try (Use me K Return)
                       (\<lambda>a. Try (Use me K Return) (\<lambda>b. Return (Bool (a = b))) Return) Return
              else Return (Prim 0)),
      shape = (\<lambda>K. if K = 5 then Class 1 else if K = 7 then Class 2 else Plain),
      key_str = (\<lambda>K. if K = 5 then ''A'' else if K = 7 then ''B'' else ''K''),
      val_str = (\<lambda>x. case x of Fn g \<Rightarrow> ''fn'' | DefaultLookup \<Rightarrow> ''defaultLookup'' | _ \<Rightarrow> ''value''),
      ctx_key = (\<lambda>c. 100 + c)\<rparr>"

text \<open>
  Context 1 is a fork of the global context and has resolved key 7 with a factory that
  read key 5; context 2 is a fork of context 1 that has copied the entry of key 7.
\<close>

definition shared_deps :: Deps where
  "shared_deps = \<lparr>deps_c = 1, deps_f = DefaultLookup, deps_k = [5]\<rparr>"

definition w_child :: world where
  "w_child =
     \<lparr>ents = (\<lambda>c K.
               if c = 1 \<and> K = 5 then Some \<lparr>ent_s = wasRead, ent_v = Obj 0, ent_d = None\<rparr>
               else if c = 1 \<and> K = 7
                 then Some \<lparr>ent_s = wasRead, ent_v = Obj 1, ent_d = Some shared_deps\<rparr>
               else if c = 2 \<and> K = 7
                 then Some \<lparr>ent_s = hasValue, ent_v = Obj 1, ent_d = Some shared_deps\<rparr>
               else None),
      prevs = (\<lambda>c. if c = 1 then [0] else if c = 2 then [1, 0] else []),
      nctx = 3, ctx = None, used = None, nobj = 2\<rparr>"

text \<open>Context 1 holds a factory for key 5 that it has not run; context 2 is its fork.\<close>

definition w_factory :: world where
  "w_factory =
     \<lparr>ents = (\<lambda>c K.
               if c = 1 \<and> K = 5 then Some \<lparr>ent_s = hasFactory, ent_v = Fn 1, ent_d = None\<rparr>
               else None),
      prevs = (\<lambda>c. if c = 1 then [0] else if c = 2 then [1, 0] else []),
      nctx = 3, ctx = None, used = None, nobj = 0\<rparr>"

text \<open>Context 1 has looked key 3 up and its factory threw.\<close>

definition w_failed :: world where
  "w_failed =
     \<lparr>ents = (\<lambda>c K.
               if c = 1 \<and> K = 3
               then Some \<lparr>ent_s = hasError, ent_v = ErrObj 0 Error ''boom'', ent_d = None\<rparr>
               else None),
      prevs = (\<lambda>c. if c = 1 then [0] else []),
      nctx = 2, ctx = None, used = None, nobj = 1\<rparr>"

text \<open>Context 1 holds a factory for key 3 that throws.\<close>

definition w_boom :: world where
  "w_boom =
     \<lparr>ents = (\<lambda>c K.
               if c = 1 \<and> K = 3 then Some \<lparr>ent_s = hasFactory, ent_v = Fn 5, ent_d = None\<rparr>
               else None),
      prevs = (\<lambda>c. if c = 1 then [0] else []),
      nctx = 2, ctx = None, used = None, nobj = 0\<rparr>"

text \<open>Context 1 holds a factory for key 3 that looks key 3 up.\<close>

definition w_cycle :: world where
  "w_cycle =
     \<lparr>ents = (\<lambda>c K.
               if c = 1 \<and> K = 3 then Some \<lparr>ent_s = hasFactory, ent_v = Fn 3, ent_d = None\<rparr>
               else None),
      prevs = (\<lambda>c. if c = 1 then [0] else []),
      nctx = 2, ctx = None, used = None, nobj = 0\<rparr>"

text \<open>
  Like \<open>w_child\<close>, but context 2 has not looked key 7 up yet and overrides key 5 with a
  factory that throws.
\<close>

definition w_over :: world where
  "w_over =
     \<lparr>ents = (\<lambda>c K.
               if c = 1 \<and> K = 5 then Some \<lparr>ent_s = wasRead, ent_v = Obj 0, ent_d = None\<rparr>
               else if c = 1 \<and> K = 7
                 then Some \<lparr>ent_s = wasRead, ent_v = Obj 1, ent_d = Some shared_deps\<rparr>
               else if c = 2 \<and> K = 5
                 then Some \<lparr>ent_s = hasFactory, ent_v = Fn 5, ent_d = None\<rparr>
               else None),
      prevs = (\<lambda>c. if c = 1 then [0] else if c = 2 then [1, 0] else []),
      nctx = 3, ctx = None, used = None, nobj = 2\<rparr>"

text \<open>The functions of \<open>demo_env\<close> but for function 7, which calls context 1.\<close>

definition tidy_env :: env where
  "tidy_env = demo_env\<lparr>fns := (\<lambda>g. if g = 7 then (\<lambda>me K. Return (Prim 0)) else fns demo_env g)\<rparr>"

text \<open>
  Context 2, a fork of context 1, holds for key 5 the factory that asks context 1 for the
  key; context 1 has no entry.
\<close>

definition w_scoped :: world where
  "w_scoped =
     \<lparr>ents = (\<lambda>c K.
               if c = 2 \<and> K = 5 then Some \<lparr>ent_s = hasFactory, ent_v = Fn 7, ent_d = None\<rparr>
               else None),
      prevs = (\<lambda>c. if c = 1 then [0] else if c = 2 then [1, 0] else []),
      nctx = 3, ctx = None, used = None, nobj = 0\<rparr>"

text \<open>Context 2, a fork of context 1, holds for key 3 a factory that is context 1 itself.\<close>

definition w_ctx_factory :: world where
  "w_ctx_factory =
     \<lparr>ents = (\<lambda>c K.
               if c = 2 \<and> K = 3 then Some \<lparr>ent_s = hasFactory, ent_v = Ctx 1, ent_d = None\<rparr>
               else None),
      prevs = (\<lambda>c. if c = 1 then [0] else if c = 2 then [1, 0] else []),
      nctx = 3, ctx = None, used = None, nobj = 0\<rparr>"

section \<open>The equations of the five tasks\<close>

lemma run_0 [simp]: "run en 0 p st = None"
  by (simp add: run_def split: option.split prod.split outcome.split State.split list.split)

lemma invoke_0 [simp]: "invoke en 0 c K st = None"
  by (simp add: invoke_def split: option.split prod.split outcome.split State.split list.split)

lemma loop_0 [simp]: "loop en 0 c K st = None"
  by (simp add: loop_def split: option.split prod.split outcome.split State.split list.split)

lemma resolve_0 [simp]: "resolve en 0 c K st = None"
  by (simp add: resolve_def split: option.split prod.split outcome.split State.split list.split)

lemma validate_0 [simp]: "validate en 0 c ob ks st = None"
  by (simp add: validate_def split: option.split prod.split outcome.split State.split list.split)

lemma run_Return [simp]: "run en (Suc n) (Return x) st = Some (Returns x, st)"
  by (simp add: run_def split: option.split prod.split outcome.split State.split list.split)

lemma run_Throw [simp]: "run en (Suc n) (Throw x) st = Some (Throws x, st)"
  by (simp add: run_def split: option.split prod.split outcome.split State.split list.split)

lemma run_ThrowNew [simp]:
  "run en (Suc n) (ThrowNew cls msg) st =
     Some (Throws (ErrObj (nobj st) cls msg), st\<lparr>nobj := Suc (nobj st)\<rparr>)"
  by (simp add: run_def new_error_def split: option.split prod.split outcome.split State.split list.split)

lemma run_New [simp]:
  "run en (Suc n) (New cont) st = run en n (cont (Obj (nobj st))) (st\<lparr>nobj := Suc (nobj st)\<rparr>)"
  by (simp add: run_def split: option.split prod.split outcome.split State.split list.split)

lemma run_Use:
  "run en (Suc n) (Use c K cont) st =
     (case invoke en n c K st of
        None \<Rightarrow> None
      | Some (Throws x, st') \<Rightarrow> Some (Throws x, st')
      | Some (Returns x, st') \<Rightarrow> run en n (cont x) st')"
  by (simp add: run_def invoke_def split: option.split prod.split outcome.split State.split list.split)

lemma run_This:
  "run en (Suc n) (This cont) st =
     (case ctx st of
        None \<Rightarrow> Some (Throws (ErrObj (nobj st) TypeError ''No current context''),
                      st\<lparr>nobj := Suc (nobj st)\<rparr>)
      | Some a \<Rightarrow> run en n (cont a) st)"
  by (simp add: run_def new_error_def split: option.split prod.split outcome.split State.split list.split)

lemma run_Set:
  "run en (Suc n) (Set c K x p) st =
     (case setEntry en c K hasValue x st of
        (Some err, st') \<Rightarrow> Some (Throws err, st')
      | (None, st') \<Rightarrow> run en n p st')"
  by (simp add: run_def split: option.split prod.split outcome.split State.split list.split)

lemma run_Def:
  "run en (Suc n) (Def c K fv p) st =
     (case setEntry en c K hasFactory fv st of
        (Some err, st') \<Rightarrow> Some (Throws err, st')
      | (None, st') \<Rightarrow> run en n p st')"
  by (simp add: run_def split: option.split prod.split outcome.split State.split list.split)

lemma run_Fork:
  "run en (Suc n) (Fork c cont) st = run en n (cont (fst (fork c st))) (snd (fork c st))"
  by (simp add: run_def split_beta split: option.split prod.split outcome.split State.split list.split)

lemma run_Try:
  "run en (Suc n) (Try p h cont) st =
     (case run en n p st of
        None \<Rightarrow> None
      | Some (Returns x, st') \<Rightarrow> run en n (cont x) st'
      | Some (Throws x, st') \<Rightarrow> run en n (h x) st')"
  by (simp add: run_def split: option.split prod.split outcome.split State.split list.split)

lemma invoke_Suc:
  "invoke en (Suc n) c K st =
     (if prevs st c = []
      then (case ctx st of
              None \<Rightarrow> Some (Throws (ErrObj (nobj st) TypeError ''No current context''),
                            st\<lparr>nobj := Suc (nobj st)\<rparr>)
            | Some a \<Rightarrow> invoke en n a K st)
      else loop en n c K (materialize c K st))"
  by (simp add: invoke_def loop_def new_error_def split: option.split prod.split outcome.split State.split list.split)

lemma loop_Suc:
  "loop en (Suc n) c K st =
     (case ents st c K of
        None \<Rightarrow> None
      | Some e \<Rightarrow>
          (case ent_s e of
             wasRead \<Rightarrow> Some (Returns (ent_v e), note_read c K st)
           | hasValue \<Rightarrow>
               (case ent_d e of
                  None \<Rightarrow> loop en n c K (mod_entry c K (\<lambda>e. e\<lparr>ent_s := wasRead\<rparr>) st)
                | Some deps \<Rightarrow>
                    (case validate en n c (deps_c deps) (deps_k deps) (enter c None st) of
                       None \<Rightarrow> None
                     | Some (Throws x, st') \<Rightarrow> Some (Throws x, restore st st')
                     | Some (Returns b, st') \<Rightarrow>
                         if b = Bool True
                         then loop en n c K
                                (mod_entry c K (\<lambda>e. e\<lparr>ent_s := wasRead\<rparr>) (restore st st'))
                         else resolve en n c K
                                (mod_entry c K (\<lambda>e. e\<lparr>ent_v := deps_f deps\<rparr>) (restore st st'))))
           | hasFactory \<Rightarrow> resolve en n c K st
           | hasError \<Rightarrow> Some (Throws (ent_v e), st)
           | isCreating \<Rightarrow>
               Some (Throws (ErrObj (nobj st) Error (cycle_msg en (ent_v e) K)),
                     st\<lparr>nobj := Suc (nobj st)\<rparr>)))"
  by (simp add: loop_def validate_def resolve_def new_error_def split: option.split prod.split outcome.split State.split list.split)

lemma resolve_Suc:
  "resolve en (Suc n) c K st =
     (case ents st c K of
        None \<Rightarrow> None
      | Some e \<Rightarrow>
          (case run en n (apply_fn en (ent_v e) c K)
                  (enter c (Some []) (mod_entry c K (\<lambda>e. e\<lparr>ent_s := isCreating\<rparr>) st)) of
             None \<Rightarrow> None
           | Some (Throws x, st') \<Rightarrow>
               Some (Throws x,
                 mod_entry c K (\<lambda>e. \<lparr>ent_s = hasError, ent_v = x, ent_d = None\<rparr>)
                   (restore (mod_entry c K (\<lambda>e. e\<lparr>ent_s := isCreating\<rparr>) st) st'))
           | Some (Returns x, st') \<Rightarrow>
               (case setEntry en c K wasRead x
                       (restore (mod_entry c K (\<lambda>e. e\<lparr>ent_s := isCreating\<rparr>) st) st') of
                  (Some err, st2) \<Rightarrow>
                    Some (Throws err,
                      mod_entry c K (\<lambda>e. \<lparr>ent_s = hasError, ent_v = err, ent_d = None\<rparr>) st2)
                | (None, st2) \<Rightarrow>
                    loop en n c K
                      (if log_of st' \<noteq> []
                       then mod_entry c K
                              (\<lambda>e'. e'\<lparr>ent_d := Some \<lparr>deps_c = c, deps_f = ent_v e,
                                                       deps_k = log_of st'\<rparr>\<rparr>)
                              st2
                       else st2))))"
  by (simp add: resolve_def run_def loop_def Let_def split: option.split prod.split outcome.split State.split list.split)

lemma validate_Nil [simp]: "validate en (Suc n) c ob [] st = Some (Returns (Bool True), st)"
  by (simp add: validate_def split: option.split prod.split outcome.split State.split list.split)

lemma validate_Cons:
  "validate en (Suc n) c ob (k # ks) st =
     (case invoke en n c k st of
        None \<Rightarrow> None
      | Some (Throws x, st1) \<Rightarrow> Some (Throws x, st1)
      | Some (Returns a, st1) \<Rightarrow>
          (case invoke en n ob k st1 of
             None \<Rightarrow> None
           | Some (Throws x, st2) \<Rightarrow> Some (Throws x, st2)
           | Some (Returns b, st2) \<Rightarrow>
               if a = b then validate en n c ob ks st2 else Some (Returns (Bool False), st2)))"
  by (simp add: validate_def invoke_def split: option.split prod.split outcome.split State.split list.split)

section \<open>Facts about the primitive steps\<close>

lemma upd_entry_simps [simp]:
  "ents (upd_entry c K e st) c' K' = (if c' = c \<and> K' = K then Some e else ents st c' K')"
  "prevs (upd_entry c K e st) = prevs st"
  "nctx (upd_entry c K e st) = nctx st"
  "ctx (upd_entry c K e st) = ctx st"
  "used (upd_entry c K e st) = used st"
  "nobj (upd_entry c K e st) = nobj st"
  by (simp_all add: upd_entry_def)

lemma mod_entry_simps [simp]:
  "ents (mod_entry c K g st) c' K' =
     (if c' = c \<and> K' = K then map_option g (ents st c K) else ents st c' K')"
  "prevs (mod_entry c K g st) = prevs st"
  "nctx (mod_entry c K g st) = nctx st"
  "ctx (mod_entry c K g st) = ctx st"
  "used (mod_entry c K g st) = used st"
  "nobj (mod_entry c K g st) = nobj st"
  by (simp_all add: mod_entry_def split: option.split)

lemma enter_simps [simp]:
  "ents (enter c dl st) = ents st"
  "prevs (enter c dl st) = prevs st"
  "nctx (enter c dl st) = nctx st"
  "ctx (enter c dl st) = Some c"
  "used (enter c dl st) = dl"
  "nobj (enter c dl st) = nobj st"
  by (simp_all add: enter_def)

lemma restore_simps [simp]:
  "ents (restore old st) = ents st"
  "prevs (restore old st) = prevs st"
  "nctx (restore old st) = nctx st"
  "ctx (restore old st) = ctx old"
  "used (restore old st) = used old"
  "nobj (restore old st) = nobj st"
  by (simp_all add: restore_def)

lemma note_read_simps [simp]:
  "ents (note_read c K st) = ents st"
  "prevs (note_read c K st) = prevs st"
  "nctx (note_read c K st) = nctx st"
  "ctx (note_read c K st) = ctx st"
  "nobj (note_read c K st) = nobj st"
  by (simp_all add: note_read_def split: option.split)

lemma used_note_read:
  "used (note_read c K st) =
     (case used st of
        Some ks \<Rightarrow> if ctx st = Some c then Some (ks @ [K]) else Some ks
      | None \<Rightarrow> None)"
  by (simp add: note_read_def split: option.split)

lemma materialize_simps [simp]:
  "prevs (materialize c K st) = prevs st"
  "nctx (materialize c K st) = nctx st"
  "ctx (materialize c K st) = ctx st"
  "used (materialize c K st) = used st"
  "nobj (materialize c K st) = nobj st"
  by (simp_all add: materialize_def split: option.split)

lemma materialize_other:
  "c' \<noteq> c \<or> K' \<noteq> K \<Longrightarrow> ents (materialize c K st) c' K' = ents st c' K'"
  by (auto simp: materialize_def split: option.split)

lemma materialize_present:
  "ents st c K = Some e \<Longrightarrow> materialize c K st = st"
  by (simp add: materialize_def)

lemma materialize_absent:
  "ents st c K = None \<Longrightarrow>
   ents (materialize c K st) c K =
     Some (case find_prev st (prevs st c) K of
             Some e \<Rightarrow> e\<lparr>ent_s := (if ent_s e = wasRead then hasValue else ent_s e)\<rparr>
           | None \<Rightarrow> \<lparr>ent_s = hasFactory, ent_v = DefaultLookup, ent_d = None\<rparr>)"
  by (simp add: materialize_def)

lemma setEntry_read:
  "ents st c K = Some e \<Longrightarrow> ent_s e = wasRead \<Longrightarrow>
   setEntry en c K s x st =
     (Some (ErrObj (nobj st) Error (''Already read: '' @ key_str en K)), st\<lparr>nobj := Suc (nobj st)\<rparr>)"
  by (simp add: setEntry_def new_error_def)

lemma setEntry_unread:
  "(\<forall>e. ents st c K = Some e \<longrightarrow> ent_s e \<noteq> wasRead) \<Longrightarrow>
   setEntry en c K s x st = (None, upd_entry c K \<lparr>ent_s = s, ent_v = x, ent_d = None\<rparr> st)"
  by (auto simp: setEntry_def split: option.split)

lemma fork_simps [simp]:
  "fst (fork c st) = nctx st"
  "ents (snd (fork c st)) = ents st"
  "prevs (snd (fork c st)) = (prevs st)(nctx st := c # prevs st c)"
  "nctx (snd (fork c st)) = Suc (nctx st)"
  "ctx (snd (fork c st)) = ctx st"
  "used (snd (fork c st)) = used st"
  "nobj (snd (fork c st)) = nobj st"
  by (simp_all add: fork_def)

lemma loop_wasRead:
  "ents st c K = Some e \<Longrightarrow> ent_s e = wasRead \<Longrightarrow>
   loop en (Suc n) c K st = Some (Returns (ent_v e), note_read c K st)"
  by (simp add: loop_Suc)

lemma loop_hasError:
  "ents st c K = Some e \<Longrightarrow> ent_s e = hasError \<Longrightarrow>
   loop en (Suc n) c K st = Some (Throws (ent_v e), st)"
  by (simp add: loop_Suc)

lemma loop_plain_value:
  "ents st c K = Some e \<Longrightarrow> ent_s e = hasValue \<Longrightarrow> ent_d e = None \<Longrightarrow>
   loop en (Suc (Suc n)) c K st =
     Some (Returns (ent_v e), note_read c K (mod_entry c K (\<lambda>e. e\<lparr>ent_s := wasRead\<rparr>) st))"
  by (simp add: loop_Suc)


lemma invoke_regular:
  "prevs st c \<noteq> [] \<Longrightarrow> invoke en (Suc n) c K st = loop en n c K (materialize c K st)"
  by (simp add: invoke_Suc)

lemma loop_hasFactory:
  "ents st c K = Some e \<Longrightarrow> ent_s e = hasFactory \<Longrightarrow>
   loop en (Suc n) c K st = resolve en n c K st"
  by (simp add: loop_Suc)

section \<open>Evaluating a call on a concrete world\<close>

lemmas fuel_numeral =
  run_Return [of _ "pred_numeral k" for k, folded numeral_eq_Suc]
  run_Throw [of _ "pred_numeral k" for k, folded numeral_eq_Suc]
  run_ThrowNew [of _ "pred_numeral k" for k, folded numeral_eq_Suc]
  run_New [of _ "pred_numeral k" for k, folded numeral_eq_Suc]
  run_Use [of _ "pred_numeral k" for k, folded numeral_eq_Suc]
  run_This [of _ "pred_numeral k" for k, folded numeral_eq_Suc]
  run_Set [of _ "pred_numeral k" for k, folded numeral_eq_Suc]
  run_Def [of _ "pred_numeral k" for k, folded numeral_eq_Suc]
  run_Fork [of _ "pred_numeral k" for k, folded numeral_eq_Suc]
  run_Try [of _ "pred_numeral k" for k, folded numeral_eq_Suc]
  invoke_Suc [of _ "pred_numeral k" for k, folded numeral_eq_Suc]
  loop_Suc [of _ "pred_numeral k" for k, folded numeral_eq_Suc]
  resolve_Suc [of _ "pred_numeral k" for k, folded numeral_eq_Suc]
  validate_Nil [of _ "pred_numeral k" for k, folded numeral_eq_Suc]
  validate_Cons [of _ "pred_numeral k" for k, folded numeral_eq_Suc]

lemmas eval_simps =
  fuel_numeral setEntry_def new_error_def materialize_def apply_fn_def defaultLookup_def
  init_def log_of_def used_note_read cycle_msg_def

lemma demo_fns [simp]:
  "fns demo_env 1 me K = New Return"
  "fns demo_env 2 me K = Use 0 5 (\<lambda>a. New Return)"
  "fns demo_env 3 me K = Use me K Return"
  "fns demo_env 4 me K = Try (Use me K Return) (\<lambda>e. Return (Prim 1)) Return"
  "fns demo_env 5 me K = ThrowNew Error ''boom''"
  "fns demo_env 6 me K =
     Fork me (\<lambda>ch. Try (Use ch K Return)
       (\<lambda>a. Try (Use ch K Return) (\<lambda>b. Return (Bool (a = b))) Return) Return)"
  "fns demo_env 7 me K = Use 1 K Return"
  "fns demo_env 8 me K =
     Try (Use me K Return) (\<lambda>a. Try (Use me K Return) (\<lambda>b. Return (Bool (a = b))) Return) Return"
  by (simp_all add: demo_env_def)

lemma demo_strs [simp]:
  "key_str demo_env 5 = ''A''"
  "key_str demo_env 7 = ''B''"
  "key_str demo_env 3 = ''K''"
  "val_str demo_env (Fn g) = ''fn''"
  "val_str demo_env DefaultLookup = ''defaultLookup''"
  "shape demo_env 5 = Class 1"
  "shape demo_env 7 = Class 2"
  "shape demo_env 3 = Plain"
  by (simp_all add: demo_env_def)

lemma demo_fn_Suc_0: "fns demo_env (Suc 0) me K = New Return"
  by (simp add: demo_env_def)

lemma tidy_fns [simp]:
  "fns tidy_env g me K = (if g = 7 then Return (Prim 0) else fns demo_env g me K)"
  by (simp add: tidy_env_def)

lemma tidy_shape [simp]:
  "shape tidy_env = shape demo_env" "key_str tidy_env = key_str demo_env"
  "val_str tidy_env = val_str demo_env" "ctx_key tidy_env = ctx_key demo_env"
  by (simp_all add: tidy_env_def)

section \<open>Entries stay, and read entries stay as they are\<close>

lemma ext_refl [simp]: "ext X st st"
  by (simp add: ext_def)

lemma extI:
  assumes "\<And>c K. ents st c K \<noteq> None \<Longrightarrow> ents st' c K \<noteq> None"
    and "\<And>c. prevs st c \<noteq> [] \<Longrightarrow> prevs st' c \<noteq> []"
    and "\<And>c K e. (c, K) \<notin> X \<Longrightarrow> ents st c K = Some e \<Longrightarrow> ent_s e = wasRead \<Longrightarrow>
           ents st' c K = Some e"
  shows "ext X st st'"
  using assms unfolding ext_def by simp

lemma ext_dom: "ext X st st' \<Longrightarrow> ents st c K \<noteq> None \<Longrightarrow> ents st' c K \<noteq> None"
  unfolding ext_def by simp

lemma ext_regular: "ext X st st' \<Longrightarrow> prevs st c \<noteq> [] \<Longrightarrow> prevs st' c \<noteq> []"
  unfolding ext_def by simp

lemma ext_read:
  "ext X st st' \<Longrightarrow> (c, K) \<notin> X \<Longrightarrow> ents st c K = Some e \<Longrightarrow> ent_s e = wasRead \<Longrightarrow>
   ents st' c K = Some e"
  unfolding ext_def by simp

lemma ext_trans: "ext X st st1 \<Longrightarrow> ext Y st1 st2 \<Longrightarrow> ext (X \<union> Y) st st2"
proof (rule extI)
  fix c K
  assume "ext X st st1" "ext Y st1 st2" "ents st c K \<noteq> None"
  then show "ents st2 c K \<noteq> None"
    by (simp add: ext_dom)
next
  fix c
  assume "ext X st st1" "ext Y st1 st2" "prevs st c \<noteq> []"
  then show "prevs st2 c \<noteq> []"
    by (simp add: ext_regular)
next
  fix c K e
  assume a: "ext X st st1" "ext Y st1 st2" and n: "(c, K) \<notin> X \<union> Y"
    and e: "ents st c K = Some e" "ent_s e = wasRead"
  from n have "(c, K) \<notin> X" "(c, K) \<notin> Y"
    by simp_all
  with a e show "ents st2 c K = Some e"
    by (simp add: ext_read)
qed

lemma ext_mono: "ext X st st' \<Longrightarrow> X \<subseteq> Y \<Longrightarrow> ext Y st st'"
proof (rule extI)
  fix c K e
  assume a: "ext X st st'" "X \<subseteq> Y" "(c, K) \<notin> Y" "ents st c K = Some e" "ent_s e = wasRead"
  from a(2) a(3) have "(c, K) \<notin> X"
    by (rule contra_subsetD)
  with a show "ents st' c K = Some e"
    by (simp add: ext_read)
qed (simp_all add: ext_dom ext_regular)

lemma ext_drop:
  assumes a: "ext (insert (c, K) X) st st'"
    and n: "\<forall>e. ents st c K = Some e \<longrightarrow> ent_s e \<noteq> wasRead"
  shows "ext X st st'"
proof (rule extI)
  fix c' K' e
  assume b: "(c', K') \<notin> X" "ents st c' K' = Some e" "ent_s e = wasRead"
  with n have "(c', K') \<noteq> (c, K)"
    by auto
  with b have "(c', K') \<notin> insert (c, K) X"
    by simp
  with a b show "ents st' c' K' = Some e"
    by (simp add: ext_read)
qed (use a in \<open>simp_all add: ext_dom ext_regular\<close>)

lemma ext_cong:
  "ents a = ents a' \<Longrightarrow> prevs a = prevs a' \<Longrightarrow> ents b = ents b' \<Longrightarrow> prevs b = prevs b' \<Longrightarrow>
   ext X a b = ext X a' b'"
  by (simp add: ext_def)

lemma ext_enter_l [simp]: "ext X (enter c dl st) st' = ext X st st'"
  by (rule ext_cong) simp_all

lemma ext_restore_r [simp]: "ext X st (restore old st') = ext X st st'"
  by (rule ext_cong) simp_all

lemma ext_note_read_r [simp]: "ext X st (note_read c K st') = ext X st st'"
  by (rule ext_cong) simp_all

lemma ext_nobj_r [simp]: "ext X st (st'\<lparr>nobj := k\<rparr>) = ext X st st'"
  by (rule ext_cong) simp_all

lemma ext_nobj_l [simp]: "ext X (st\<lparr>nobj := k\<rparr>) st' = ext X st st'"
  by (rule ext_cong) simp_all

lemma ext_mod_entry: "ext {(c, K)} st (mod_entry c K g st)"
  by (auto simp: ext_def)

lemma ext_materialize: "ext {} st (materialize c K st)"
  by (auto simp: ext_def materialize_def split: option.split)

lemma ext_setEntry: "ext {} st (snd (setEntry en c K s x st))"
  by (auto simp: ext_def setEntry_def new_error_def split: option.split)

lemma ext_fork: "ext {} st (snd (fork c st))"
  by (auto simp: ext_def)

lemma amb_refl [simp]: "amb st st"
  by (simp add: amb_def)

lemma amb_trans: "amb a b \<Longrightarrow> amb b c \<Longrightarrow> amb a c"
  by (simp add: amb_def)

lemma amb_restore [simp]: "amb st (restore st st')"
  by (simp add: amb_def)

lemma amb_restore_l [simp]: "amb (restore old st) st' = amb old st'"
  by (simp add: amb_def)

lemma amb_mod_entry_l [simp]: "amb (mod_entry c K g st) st' = amb st st'"
  by (simp add: amb_def)

lemma amb_mod_entry_r [simp]: "amb st (mod_entry c K g st') = amb st st'"
  by (simp add: amb_def)

lemma amb_restore_mod [simp]: "amb st (restore (mod_entry c K g st) st')"
  by (simp add: amb_def)

lemma amb_materialize_l [simp]: "amb (materialize c K st) st' = amb st st'"
  by (simp add: amb_def)

lemma amb_nobj_r [simp]: "amb st (st'\<lparr>nobj := k\<rparr>) = amb st st'"
  by (simp add: amb_def)

lemma amb_nobj_l [simp]: "amb (st\<lparr>nobj := k\<rparr>) st' = amb st st'"
  by (simp add: amb_def)

lemma amb_note_read [simp]: "amb st (note_read c K st)"
  by (simp add: amb_def note_read_def split: option.split)

lemma amb_fork_l [simp]: "amb (snd (fork c st)) st' = amb st st'"
  by (simp add: amb_def)

lemma amb_setEntry: "amb st (snd (setEntry en c K s x st))"
  by (auto simp: amb_def setEntry_def new_error_def split: option.split)

lemma ext_trans0: "ext {} a b \<Longrightarrow> ext {} b c \<Longrightarrow> ext {} a c"
  using ext_trans [of "{}" a b "{}" c] by simp

lemma ext_trans_l: "ext {} a b \<Longrightarrow> ext X b c \<Longrightarrow> ext X a c"
  using ext_trans [of "{}" a b X c] by simp

lemma ext_trans_r: "ext X a b \<Longrightarrow> ext {} b c \<Longrightarrow> ext X a c"
  using ext_trans [of X a b "{}" c] by simp

lemma ext_trans_same: "ext X a b \<Longrightarrow> ext X b c \<Longrightarrow> ext X a c"
  using ext_trans [of X a b X c] by simp

lemma run_IH:
  "kept_below en n \<Longrightarrow> run en n p st = Some (r, st') \<Longrightarrow> ext {} st st' \<and> amb st st'"
  unfolding kept_below_def run_def kept_def target_def by fastforce

lemma invoke_IH:
  "kept_below en n \<Longrightarrow> invoke en n c K st = Some (r, st') \<Longrightarrow> ext {} st st' \<and> amb st st'"
  unfolding kept_below_def invoke_def kept_def target_def by fastforce

lemma loop_IH:
  "kept_below en n \<Longrightarrow> loop en n c K st = Some (r, st') \<Longrightarrow> ext {} st st' \<and> amb st st'"
  unfolding kept_below_def loop_def kept_def target_def by fastforce

lemma validate_IH:
  "kept_below en n \<Longrightarrow> validate en n c ob ks st = Some (r, st') \<Longrightarrow>
   ext {} st st' \<and> amb st st'"
  unfolding kept_below_def validate_def kept_def target_def by fastforce

lemma resolve_IH:
  "kept_below en n \<Longrightarrow> resolve en n c K st = Some (r, st') \<Longrightarrow>
   ext {(c, K)} st st' \<and> amb st st'"
  unfolding kept_below_def resolve_def kept_def target_def by fastforce

lemma setEntry_kept:
  "setEntry en c K s x st = (eo, st') \<Longrightarrow> ext {} st st' \<and> amb st st'"
  using ext_setEntry [of st en c K s x] amb_setEntry [of st en c K s x] by simp

lemma run_kept:
  assumes kb: "kept_below en n" and r: "run en (Suc n) p st = Some (r, st')"
  shows "ext {} st st' \<and> amb st st'"
proof (cases p)
  case (Use c K cont)
  with r show ?thesis
    by (auto simp: run_Use split: option.splits outcome.splits
        dest!: invoke_IH [OF kb] run_IH [OF kb] intro: ext_trans0 amb_trans)
next
  case (This cont)
  with r show ?thesis
    by (auto simp: run_This split: option.splits dest!: run_IH [OF kb])
next
  case (New cont)
  with r show ?thesis
    by (auto dest!: run_IH [OF kb])
next
  case (Set c K x p')
  with r show ?thesis
    by (auto simp: run_Set split: prod.splits option.splits
        dest!: run_IH [OF kb] setEntry_kept intro: ext_trans0 amb_trans)
next
  case (Def c K x p')
  with r show ?thesis
    by (auto simp: run_Def split: prod.splits option.splits
        dest!: run_IH [OF kb] setEntry_kept intro: ext_trans0 amb_trans)
next
  case (Fork c cont)
  with r ext_fork [of st c] show ?thesis
    by (auto simp: run_Fork dest!: run_IH [OF kb] intro: ext_trans0 amb_trans)
next
  case (Try p' h cont)
  with r show ?thesis
    by (auto simp: run_Try split: option.splits outcome.splits
        dest!: run_IH [OF kb] intro: ext_trans0 amb_trans)
qed (use r in auto)

lemma invoke_kept:
  assumes kb: "kept_below en n" and r: "invoke en (Suc n) c K st = Some (r, st')"
  shows "ext {} st st' \<and> amb st st'"
  using r ext_materialize [of st c K]
  by (auto simp: invoke_Suc split: if_splits option.splits
      dest!: invoke_IH [OF kb] loop_IH [OF kb] intro: ext_trans0 amb_trans)

lemma validate_kept:
  assumes kb: "kept_below en n" and r: "validate en (Suc n) c ob ks st = Some (r, st')"
  shows "ext {} st st' \<and> amb st st'"
proof (cases ks)
  case Nil
  with r show ?thesis by simp
next
  case (Cons k ks')
  with r show ?thesis
    by (auto simp: validate_Cons split: if_splits option.splits outcome.splits
        dest!: invoke_IH [OF kb] validate_IH [OF kb])
      (blast intro: ext_trans0 amb_trans)+
qed

lemma resolve_kept:
  assumes kb: "kept_below en n" and r: "resolve en (Suc n) c K st = Some (r, st')"
  shows "ext {(c, K)} st st' \<and> amb st st'"
proof -
  let ?st1 = "mod_entry c K (\<lambda>e. e\<lparr>ent_s := isCreating\<rparr>) st"
  from r obtain e where e: "ents st c K = Some e"
    by (auto simp: resolve_Suc split: option.splits)
  from r e obtain out s3 where
    run: "run en n (apply_fn en (ent_v e) c K) (enter c (Some []) ?st1) = Some (out, s3)"
    by (auto simp: resolve_Suc split: option.splits)
  from run_IH [OF kb run] have s3: "ext {} ?st1 s3"
    by simp
  have a: "ext {(c, K)} st (restore ?st1 s3)"
    using ext_trans_r [OF ext_mod_entry s3] by simp
  show ?thesis
  proof (cases out)
    case (Throws x)
    with r e run have "st' = mod_entry c K (\<lambda>e. \<lparr>ent_s = hasError, ent_v = x, ent_d = None\<rparr>)
        (restore ?st1 s3)"
      by (simp add: resolve_Suc)
    with ext_trans_same [OF a ext_mod_entry] show ?thesis
      by simp
  next
    case (Returns x)
    obtain eo s4 where se: "setEntry en c K wasRead x (restore ?st1 s3) = (eo, s4)"
      by (cases "setEntry en c K wasRead x (restore ?st1 s3)")
    from setEntry_kept [OF se] have s4: "ext {} (restore ?st1 s3) s4" "amb (restore ?st1 s3) s4"
      by simp_all
    from ext_trans_r [OF a s4(1)] have b: "ext {(c, K)} st s4" .
    show ?thesis
    proof (cases eo)
      case (Some err)
      with r e run Returns se have
        "st' = mod_entry c K (\<lambda>e. \<lparr>ent_s = hasError, ent_v = err, ent_d = None\<rparr>) s4"
        by (simp add: resolve_Suc)
      with ext_trans_same [OF b ext_mod_entry] s4(2) show ?thesis
        by simp
    next
      case None
      let ?s5 = "if log_of s3 \<noteq> []
                 then mod_entry c K
                        (\<lambda>e'. e'\<lparr>ent_d := Some \<lparr>deps_c = c, deps_f = ent_v e, deps_k = log_of s3\<rparr>\<rparr>) s4
                 else s4"
      from r e run Returns se None have l: "loop en n c K ?s5 = Some (r, st')"
        by (simp add: resolve_Suc)
      have "ext {(c, K)} s4 ?s5"
        by (simp add: ext_mod_entry)
      from ext_trans_same [OF b this] have "ext {(c, K)} st ?s5" .
      from ext_trans_r [OF this] loop_IH [OF kb l] s4(2) show ?thesis
        by (auto split: if_splits intro: amb_trans)
    qed
  qed
qed

lemma loop_kept:
  assumes kb: "kept_below en n" and r: "loop en (Suc n) c K st = Some (r, st')"
  shows "ext {} st st' \<and> amb st st'"
proof -
  from r obtain e where e: "ents st c K = Some e"
    by (auto simp: loop_Suc split: option.splits)
  show ?thesis
  proof (cases "ent_s e")
    case wasRead
    with r e show ?thesis
      by (auto simp: loop_Suc)
  next
    case hasError
    with r e show ?thesis
      by (auto simp: loop_Suc)
  next
    case isCreating
    with r e show ?thesis
      by (auto simp: loop_Suc)
  next
    case hasFactory
    with r e have "resolve en n c K st = Some (r, st')"
      by (simp add: loop_Suc)
    from resolve_IH [OF kb this]
    have x: "ext (insert (c, K) {}) st st'" and cx: "amb st st'"
      by simp_all
    have "\<forall>e. ents st c K = Some e \<longrightarrow> ent_s e \<noteq> wasRead"
      using e hasFactory by simp
    from ext_drop [OF x this] cx show ?thesis
      by simp
  next
    case hasValue
    have nr: "\<forall>e. ents st c K = Some e \<longrightarrow> ent_s e \<noteq> wasRead"
      using e hasValue by simp
    show ?thesis
    proof (cases "ent_d e")
      case None
      with r e hasValue have l: "loop en n c K (mod_entry c K (\<lambda>e. e\<lparr>ent_s := wasRead\<rparr>) st) = Some (r, st')"
        by (simp add: loop_Suc)
      from loop_IH [OF kb l]
      have x: "ext {} (mod_entry c K (\<lambda>e. e\<lparr>ent_s := wasRead\<rparr>) st) st'" and cx: "amb st st'"
        by simp_all
      from ext_trans_r [OF ext_mod_entry x] have "ext (insert (c, K) {}) st st'"
        by simp
      from ext_drop [OF this nr] cx show ?thesis
        by simp
    next
      case (Some dp)
      with r e hasValue obtain out sv where
        v: "validate en n c (deps_c dp) (deps_k dp) (enter c None st) = Some (out, sv)"
        by (auto simp: loop_Suc split: option.splits)
      from validate_IH [OF kb v] have sv: "ext {} st (restore st sv)"
        by simp
      show ?thesis
      proof (cases out)
        case (Throws x)
        with r e hasValue Some v sv show ?thesis
          by (auto simp: loop_Suc)
      next
        case (Returns b)
        show ?thesis
        proof (cases "b = Bool True")
          case True
          with r e hasValue Some v Returns have
            l: "loop en n c K (mod_entry c K (\<lambda>e. e\<lparr>ent_s := wasRead\<rparr>) (restore st sv)) = Some (r, st')"
            by (simp add: loop_Suc)
          from loop_IH [OF kb l]
          have x: "ext {} (mod_entry c K (\<lambda>e. e\<lparr>ent_s := wasRead\<rparr>) (restore st sv)) st'"
            and cx: "amb st st'"
            by simp_all
          from ext_trans_r [OF ext_trans_l [OF sv ext_mod_entry] x]
          have "ext (insert (c, K) {}) st st'"
            by simp
          from ext_drop [OF this nr] cx show ?thesis
            by simp
        next
          case False
          with r e hasValue Some v Returns have
            l: "resolve en n c K (mod_entry c K (\<lambda>e. e\<lparr>ent_v := deps_f dp\<rparr>) (restore st sv)) = Some (r, st')"
            by (simp add: loop_Suc)
          from resolve_IH [OF kb l]
          have x: "ext {(c, K)} (mod_entry c K (\<lambda>e. e\<lparr>ent_v := deps_f dp\<rparr>) (restore st sv)) st'"
            and cx: "amb st st'"
            by simp_all
          from ext_trans_same [OF ext_trans_l [OF sv ext_mod_entry] x]
          have "ext (insert (c, K) {}) st st'"
            by simp
          from ext_drop [OF this nr] cx show ?thesis
            by simp
        qed
      qed
    qed
  qed
qed

lemma kept_below_all: "kept_below en n"
proof (induction n)
  case 0
  show ?case
    by (simp add: kept_below_def)
next
  case (Suc n)
  show ?case
    unfolding kept_below_def
  proof (intro allI impI)
    fix t st r st'
    assume s: "step en (Suc n) t st = Some (r, st')"
    show "kept t st st'"
    proof (cases t)
      case (Run p)
      with s run_kept [OF Suc, of p st r st'] show ?thesis
        by (simp add: run_def kept_def target_def)
    next
      case (Invoke c K)
      with s invoke_kept [OF Suc, of c K st r st'] show ?thesis
        by (simp add: invoke_def kept_def target_def)
    next
      case (Loop c K)
      with s loop_kept [OF Suc, of c K st r st'] show ?thesis
        by (simp add: loop_def kept_def target_def)
    next
      case (Resolve c K)
      with s resolve_kept [OF Suc, of c K st r st'] show ?thesis
        by (simp add: resolve_def kept_def target_def)
    next
      case (Validate c ob ks)
      with s validate_kept [OF Suc, of c ob ks st r st'] show ?thesis
        by (simp add: validate_def kept_def target_def)
    qed
  qed
qed

lemma run_ext: "run en n p st = Some (r, st') \<Longrightarrow> ext {} st st' \<and> amb st st'"
  by (rule run_IH [OF kept_below_all])

lemma invoke_ext: "invoke en n c K st = Some (r, st') \<Longrightarrow> ext {} st st' \<and> amb st st'"
  by (rule invoke_IH [OF kept_below_all])

lemma loop_ext: "loop en n c K st = Some (r, st') \<Longrightarrow> ext {} st st' \<and> amb st st'"
  by (rule loop_IH [OF kept_below_all])


lemma resolve_ext:
  "resolve en n c K st = Some (r, st') \<Longrightarrow> ext {(c, K)} st st' \<and> amb st st'"
  by (rule resolve_IH [OF kept_below_all])

section \<open>What a lookup returns has been read\<close>

lemma is_read_ext: "is_read st c K x \<Longrightarrow> ext {} st st' \<Longrightarrow> is_read st' c K x"
  unfolding is_read_def using ext_read [of "{}" st st' c K] by auto


lemma is_read_now:
  "ents st c K = Some e \<Longrightarrow> ent_s e = wasRead \<Longrightarrow> is_read (note_read c K st) c K (ent_v e)"
  by (simp add: is_read_def)

lemma returns_read_aux:
  "(\<forall>c K st x st'. loop en n c K st = Some (Returns x, st') \<longrightarrow> is_read st' c K x) \<and>
   (\<forall>c K st x st'. resolve en n c K st = Some (Returns x, st') \<longrightarrow> is_read st' c K x)"
proof (induction n rule: less_induct)
  case (less n)
  show ?case
  proof (cases n)
    case 0
    then show ?thesis by simp
  next
    case (Suc n')
    have IHl: "\<And>c K st x st'. loop en n' c K st = Some (Returns x, st') \<Longrightarrow> is_read st' c K x"
      using less [of n'] Suc by blast
    have res: "is_read st' c K x" if r: "resolve en m c K st = Some (Returns x, st')" and m: "m \<le> n"
      for m c K st x st'
    proof (cases m)
      case 0
      with r show ?thesis by simp
    next
      case (Suc m')
      with m \<open>n = Suc n'\<close> have "m' < n" by simp
      from less [OF this] have
        IH: "\<And>c K st x st'. loop en m' c K st = Some (Returns x, st') \<Longrightarrow> is_read st' c K x"
        by blast
      from r Suc show ?thesis
        by (auto simp: resolve_Suc split: option.splits outcome.splits prod.splits dest: IH)
    qed
    have lo: "is_read st' c K x" if l: "loop en (Suc n') c K st = Some (Returns x, st')"
      for c K st x st'
    proof -
      have r': "\<And>c K st x st'. resolve en n' c K st = Some (Returns x, st') \<Longrightarrow> is_read st' c K x"
        using res [of n'] Suc by simp
      from l show ?thesis
        by (auto simp: loop_Suc split: option.splits outcome.splits State.splits
            if_splits dest: IHl r' intro: is_read_now)
    qed
    from lo res [of n] Suc show ?thesis
      by blast
  qed
qed

lemma loop_returns_read: "loop en n c K st = Some (Returns x, st') \<Longrightarrow> is_read st' c K x"
  using returns_read_aux by blast

lemma invoke_returns_read:
  "prevs st c \<noteq> [] \<Longrightarrow> invoke en n c K st = Some (Returns x, st') \<Longrightarrow> is_read st' c K x"
  by (cases n) (auto simp: invoke_Suc dest: loop_returns_read)

lemma read_again:
  "prevs st c \<noteq> [] \<Longrightarrow> is_read st c K x \<Longrightarrow>
   invoke en (Suc (Suc m)) c K st = Some (Returns x, note_read c K st)"
  by (auto simp: is_read_def invoke_regular materialize_present loop_wasRead)

lemma read_rejects_write:
  "is_read st c K x \<Longrightarrow>
   setEntry en c K s y st =
     (Some (ErrObj (nobj st) Error (''Already read: '' @ key_str en K)), st\<lparr>nobj := Suc (nobj st)\<rparr>)"
  by (auto simp: is_read_def setEntry_read)



section \<open>The check of a dependency record\<close>








section \<open>Lookups leave the ancestors alone\<close>

lemma records_cong: "ents st' = ents st \<Longrightarrow> records st' = records st"
  by (simp add: records_def)

lemma records_simps [simp]:
  "records (enter c dl st) = records st"
  "records (restore old st) = records st"
  "records (note_read c K st) = records st"
  "records (st\<lparr>nobj := k\<rparr>) = records st"
  "records (snd (fork c st)) = records st"
  by (simp_all add: records_def)

lemma frame_refl [simp]: "frame U W st st"
  by (simp add: frame_def)

lemma frame_trans: "frame U W a b \<Longrightarrow> frame U W b c \<Longrightarrow> frame U W a c"
  unfolding frame_def by (intro conjI ballI impI) (simp, simp, simp, blast, blast)

lemma frame_cong:
  "ents a' = ents a \<Longrightarrow> prevs a' = prevs a \<Longrightarrow> nctx a' = nctx a \<Longrightarrow>
   ents b' = ents b \<Longrightarrow> prevs b' = prevs b \<Longrightarrow> nctx b' = nctx b \<Longrightarrow>
   frame U W a' b' = frame U W a b"
  by (simp add: frame_def records_def payload_ok_def)

lemma frame_enter_l [simp]: "frame U W (enter c dl st) st' = frame U W st st'"
  by (rule frame_cong) simp_all

lemma frame_enter_r [simp]: "frame U W st (enter c dl st') = frame U W st st'"
  by (rule frame_cong) simp_all

lemma frame_restore_l [simp]: "frame U W (restore old st) st' = frame U W st st'"
  by (rule frame_cong) simp_all

lemma frame_restore_r [simp]: "frame U W st (restore old st') = frame U W st st'"
  by (rule frame_cong) simp_all

lemma frame_note_read_r [simp]: "frame U W st (note_read c K st') = frame U W st st'"
  by (rule frame_cong) simp_all

lemma frame_nobj_r [simp]: "frame U W st (st'\<lparr>nobj := k\<rparr>) = frame U W st st'"
  by (rule frame_cong) simp_all

lemma frame_nobj_l [simp]: "frame U W (st\<lparr>nobj := k\<rparr>) st' = frame U W st st'"
  by (rule frame_cong) simp_all

lemma frame_is_read:
  "frame U W st st' \<Longrightarrow> a \<in> W \<Longrightarrow> is_read st' a k x = is_read st a k x"
  by (simp add: frame_def is_read_def)

lemma world_ok_frame:
  assumes i: "world_ok U W st" and f: "frame U W st st'"
  shows "world_ok U W st'"
proof -
  from i have uw: "U \<subseteq> W"
    by (simp add: world_ok_def)
  have "deps_sound U st'"
    unfolding deps_sound_def
  proof (intro ballI impI)
    fix dp k
    assume dp: "dp \<in> records st'" and u: "deps_c dp \<in> U" and k: "k \<in> set (deps_k dp)"
    from f dp u have "dp \<in> records st"
      by (simp add: frame_def)
    with i u k obtain x where "is_read st (deps_c dp) k x"
      unfolding world_ok_def deps_sound_def by blast
    with frame_is_read [OF f, of "deps_c dp"] u uw show "\<exists>x. is_read st' (deps_c dp) k x"
      by blast
  qed
  with i f show ?thesis
    unfolding world_ok_def frame_def by (auto simp: less_le_trans)
qed

lemma world_ok_payload:
  "world_ok U W st \<Longrightarrow> ents st c K = Some e \<Longrightarrow> entry_ok U e"
  by (auto simp: world_ok_def payload_ok_def)

lemma world_ok_cong:
  "ents st' = ents st \<Longrightarrow> prevs st' = prevs st \<Longrightarrow> nctx st' = nctx st \<Longrightarrow>
   world_ok U W st' = world_ok U W st"
  by (simp add: world_ok_def deps_sound_def records_def is_read_def payload_ok_def)

lemma world_ok_simps [simp]:
  "world_ok U W (enter c dl st) = world_ok U W st"
  "world_ok U W (restore old st) = world_ok U W st"
  by (rule world_ok_cong; simp)+

lemma frame_new_error [simp]: "frame U W st (snd (new_error cls msg st))"
  by (simp add: new_error_def)

lemma frame_upd_entry:
  assumes c: "c \<notin> W"
    and d: "\<forall>dp. ent_d e = Some dp \<longrightarrow> deps_c dp \<in> U \<longrightarrow> dp \<in> records st"
    and p: "payload_ok U st \<longrightarrow> entry_ok U e"
  shows "frame U W st (upd_entry c K e st)"
  unfolding frame_def
proof (intro conjI ballI impI)
  assume "payload_ok U st"
  with p show "payload_ok U (upd_entry c K e st)"
    by (auto simp: payload_ok_def)
next
  fix a
  assume "a \<in> W"
  with c show "ents (upd_entry c K e st) a = ents st a"
    by (auto simp: upd_entry_def)
next
  fix dp
  assume dp: "dp \<in> records (upd_entry c K e st)" and u: "deps_c dp \<in> U"
  from dp obtain c' K' e' where e': "ents (upd_entry c K e st) c' K' = Some e'"
    "ent_d e' = Some dp"
    by (auto simp: records_def)
  show "dp \<in> records st"
  proof (cases "c' = c \<and> K' = K")
    case True
    with e' d u show ?thesis
      by simp
  next
    case False
    with e' show ?thesis
      by (auto simp: records_def)
  qed
qed simp_all

lemma frame_mod_entry:
  assumes c: "c \<notin> W"
    and d: "\<forall>e dp. ent_d (g e) = Some dp \<longrightarrow> deps_c dp \<in> U \<longrightarrow> ent_d e = Some dp"
    and p: "\<forall>e. entry_ok U e \<longrightarrow> entry_ok U (g e)"
  shows "frame U W st (mod_entry c K g st)"
proof (cases "ents st c K")
  case None
  then show ?thesis
    by (simp add: mod_entry_def)
next
  case (Some e)
  have "frame U W st (upd_entry c K (g e) st)"
  proof (rule frame_upd_entry [OF c])
    show "\<forall>dp. ent_d (g e) = Some dp \<longrightarrow> deps_c dp \<in> U \<longrightarrow> dp \<in> records st"
    proof (intro allI impI)
      fix dp
      assume "ent_d (g e) = Some dp" "deps_c dp \<in> U"
      with d have "ent_d e = Some dp"
        by blast
      with Some show "dp \<in> records st"
        by (auto simp: records_def)
    qed
    from Some p show "payload_ok U st \<longrightarrow> entry_ok U (g e)"
      by (auto simp: payload_ok_def)
  qed
  with Some show ?thesis
    by (simp add: mod_entry_def)
qed

lemma frame_setEntry:
  assumes c: "c \<notin> W" and x: "s = hasFactory \<longrightarrow> x \<notin> Ctx ` U"
  shows "frame U W st (snd (setEntry en c K s x st))"
  using frame_upd_entry [OF c, of "\<lparr>ent_s = s, ent_v = x, ent_d = None\<rparr>" U st K] x
  by (auto simp: setEntry_def new_error_def entry_ok_def split: option.split)

lemma frame_fork:
  assumes i: "world_ok U W st"
  shows "frame U W st (snd (fork c st))" and "fst (fork c st) \<notin> W"
  using i by (auto simp: frame_def world_ok_def payload_ok_def)

lemma find_prev_Some:
  "find_prev st rs K = Some e \<Longrightarrow> \<exists>r\<in>set rs. ents st r K = Some e"
  by (induction rs) (auto split: option.splits)

lemma frame_materialize:
  assumes c: "c \<notin> W"
  shows "frame U W st (materialize c K st)"
proof (cases "ents st c K")
  case (Some e)
  then show ?thesis
    by (simp add: materialize_present)
next
  case None
  show ?thesis
  proof (cases "find_prev st (prevs st c) K")
    case N: None
    with None frame_upd_entry [OF c, of "\<lparr>ent_s = hasFactory, ent_v = DefaultLookup, ent_d = None\<rparr>" U st K]
    show ?thesis
      by (auto simp: materialize_def entry_ok_def)
  next
    case (Some e)
    from find_prev_Some [OF Some] have "\<forall>dp. ent_d e = Some dp \<longrightarrow> dp \<in> records st"
      and "payload_ok U st \<longrightarrow> entry_ok U e"
      by (auto simp: records_def payload_ok_def)
    with None Some
      frame_upd_entry [OF c, of "e\<lparr>ent_s := (if ent_s e = wasRead then hasValue else ent_s e)\<rparr>" U st K]
    show ?thesis
      by (auto simp: materialize_def entry_ok_def)
  qed
qed

lemma amb_ok_amb: "amb st st' \<Longrightarrow> amb_ok W st' = amb_ok W st"
  by (simp add: amb_ok_def amb_def)

lemma amb_ok_simps [simp]:
  "amb_ok W (enter c dl st) = (c \<notin> W)"
  "amb_ok W (restore old st) = amb_ok W old"
  "amb_ok W (mod_entry c K g st) = amb_ok W st"
  "amb_ok W (snd (fork c st)) = amb_ok W st"
  "amb_ok W (st\<lparr>nobj := k\<rparr>) = amb_ok W st"
  "amb_ok W (materialize c K st) = amb_ok W st"
  by (simp_all add: amb_ok_def)

lemma run_F:
  "framed_below en U W n \<Longrightarrow> run en n p st = Some (r, st') \<Longrightarrow> world_ok U W st \<Longrightarrow>
   avoids U W p \<Longrightarrow> amb_ok W st \<Longrightarrow> frame U W st st'"
  unfolding framed_below_def run_def task_ok_def by fastforce

lemma invoke_F:
  "framed_below en U W n \<Longrightarrow> invoke en n c K st = Some (r, st') \<Longrightarrow> world_ok U W st \<Longrightarrow>
   (c \<in> U \<longrightarrow> (\<exists>x. is_read st c K x)) \<Longrightarrow> (prevs st c = [] \<longrightarrow> amb_ok W st) \<Longrightarrow>
   frame U W st st'"
  unfolding framed_below_def invoke_def task_ok_def by fastforce

lemma loop_F:
  "framed_below en U W n \<Longrightarrow> loop en n c K st = Some (r, st') \<Longrightarrow> world_ok U W st \<Longrightarrow>
   c \<notin> W \<or> (\<exists>x. is_read st c K x) \<Longrightarrow> frame U W st st'"
  unfolding framed_below_def loop_def task_ok_def by fastforce

lemma resolve_F:
  "framed_below en U W n \<Longrightarrow> resolve en n c K st = Some (r, st') \<Longrightarrow> world_ok U W st \<Longrightarrow>
   c \<notin> W \<Longrightarrow> (\<forall>e. ents st c K = Some e \<longrightarrow> ent_v e \<notin> Ctx ` U) \<Longrightarrow> frame U W st st'"
  unfolding framed_below_def resolve_def task_ok_def by fastforce

lemma validate_F:
  "framed_below en U W n \<Longrightarrow> validate en n c ob ks st = Some (r, st') \<Longrightarrow> world_ok U W st \<Longrightarrow>
   c \<notin> U \<Longrightarrow> amb_ok W st \<Longrightarrow> (ob \<in> U \<longrightarrow> (\<forall>k\<in>set ks. \<exists>x. is_read st ob k x)) \<Longrightarrow>
   frame U W st st'"
  unfolding framed_below_def validate_def task_ok_def by fastforce

lemma run_framed:
  assumes fb: "framed_below en U W n" and iv: "world_ok U W st"
    and av: "avoids U W p" and am: "amb_ok W st"
    and r: "run en (Suc n) p st = Some (r, st')"
  shows "frame U W st st'"
proof (cases p)
  case (Use t K cont)
  from r Use obtain out s1 where i: "invoke en n t K st = Some (out, s1)"
    by (auto simp: run_Use split: option.splits)
  from av Use have t: "t \<notin> U" and c: "\<And>v. avoids U W (cont v)"
    by simp_all
  from invoke_F [OF fb i iv] t am have f1: "frame U W st s1"
    by simp
  show ?thesis
  proof (cases out)
    case (Throws x)
    with r Use i f1 show ?thesis
      by (simp add: run_Use)
  next
    case (Returns x)
    with r Use i have r2: "run en n (cont x) s1 = Some (r, st')"
      by (simp add: run_Use)
    from invoke_ext [OF i] am have "amb_ok W s1"
      by (auto simp: amb_ok_def amb_def)
    from run_F [OF fb r2 world_ok_frame [OF iv f1] c this] f1 show ?thesis
      by (blast intro: frame_trans)
  qed
next
  case (This cont)
  show ?thesis
  proof (cases "ctx st")
    case None
    with r This show ?thesis
      by (auto simp: run_This)
  next
    case (Some a)
    with r This have r2: "run en n (cont a) st = Some (r, st')"
      by (simp add: run_This)
    from am Some have "a \<notin> W"
      by (simp add: amb_ok_def)
    with av This have "avoids U W (cont a)"
      by simp
    from run_F [OF fb r2 iv this am] show ?thesis .
  qed
next
  case (New cont)
  with r have r2: "run en n (cont (Obj (nobj st))) (st\<lparr>nobj := Suc (nobj st)\<rparr>) = Some (r, st')"
    by simp
  have i2: "world_ok U W (st\<lparr>nobj := Suc (nobj st)\<rparr>)"
    using iv by (simp add: world_ok_cong [of "st\<lparr>nobj := Suc (nobj st)\<rparr>" st])
  from av New have "avoids U W (cont (Obj (nobj st)))"
    by simp
  from run_F [OF fb r2 i2 this] am show ?thesis
    by simp
next
  case (Set t K x p')
  obtain eo s1 where se: "setEntry en t K hasValue x st = (eo, s1)"
    by (cases "setEntry en t K hasValue x st")
  from av Set have t: "t \<notin> W" and p': "avoids U W p'"
    by simp_all
  from frame_setEntry [OF t, of hasValue x U st en K] se have f1: "frame U W st s1"
    by simp
  show ?thesis
  proof (cases eo)
    case (Some err)
    with r Set se f1 show ?thesis
      by (simp add: run_Set)
  next
    case None
    with r Set se have r2: "run en n p' s1 = Some (r, st')"
      by (simp add: run_Set)
    from amb_setEntry [of st en t K hasValue x] se am have "amb_ok W s1"
      by (auto simp: amb_ok_def amb_def)
    from run_F [OF fb r2 world_ok_frame [OF iv f1] p' this] f1 show ?thesis
      by (blast intro: frame_trans)
  qed
next
  case (Def t K x p')
  obtain eo s1 where se: "setEntry en t K hasFactory x st = (eo, s1)"
    by (cases "setEntry en t K hasFactory x st")
  from av Def have t: "t \<notin> W" and x: "x \<notin> Ctx ` U" and p': "avoids U W p'"
    by simp_all
  from frame_setEntry [OF t, of hasFactory x U st en K] x se have f1: "frame U W st s1"
    by simp
  show ?thesis
  proof (cases eo)
    case (Some err)
    with r Def se f1 show ?thesis
      by (simp add: run_Def)
  next
    case None
    with r Def se have r2: "run en n p' s1 = Some (r, st')"
      by (simp add: run_Def)
    from amb_setEntry [of st en t K hasFactory x] se am have "amb_ok W s1"
      by (auto simp: amb_ok_def amb_def)
    from run_F [OF fb r2 world_ok_frame [OF iv f1] p' this] f1 show ?thesis
      by (blast intro: frame_trans)
  qed
next
  case (Fork t cont)
  with r have r2: "run en n (cont (fst (fork t st))) (snd (fork t st)) = Some (r, st')"
    by (simp add: run_Fork)
  note f1 = frame_fork [OF iv, of t]
  from av Fork f1(2) have "avoids U W (cont (fst (fork t st)))"
    by simp
  from run_F [OF fb r2 world_ok_frame [OF iv f1(1)] this] am f1(1) show ?thesis
    by (auto intro: frame_trans)
next
  case (Try p' h cont)
  from r Try obtain out s1 where i: "run en n p' st = Some (out, s1)"
    by (auto simp: run_Try split: option.splits)
  from av Try have p': "avoids U W p'" and h: "\<And>v. avoids U W (h v)"
    and c: "\<And>v. avoids U W (cont v)"
    by simp_all
  from run_F [OF fb i iv p' am] have f1: "frame U W st s1" .
  from run_ext [OF i] am have a1: "amb_ok W s1"
    by (auto simp: amb_ok_def amb_def)
  show ?thesis
  proof (cases out)
    case (Throws x)
    with r Try i have r2: "run en n (h x) s1 = Some (r, st')"
      by (simp add: run_Try)
    from run_F [OF fb r2 world_ok_frame [OF iv f1] h a1] f1 show ?thesis
      by (blast intro: frame_trans)
  next
    case (Returns x)
    with r Try i have r2: "run en n (cont x) s1 = Some (r, st')"
      by (simp add: run_Try)
    from run_F [OF fb r2 world_ok_frame [OF iv f1] c a1] f1 show ?thesis
      by (blast intro: frame_trans)
  qed
qed (use r in \<open>auto simp: new_error_def\<close>)

lemma invoke_framed:
  assumes fb: "framed_below en U W n" and iv: "world_ok U W st"
    and u: "c \<in> U \<longrightarrow> (\<exists>x. is_read st c K x)" and g: "prevs st c = [] \<longrightarrow> amb_ok W st"
    and r: "invoke en (Suc n) c K st = Some (r, st')"
  shows "frame U W st st'"
proof (cases "prevs st c = []")
  case True
  show ?thesis
  proof (cases "ctx st")
    case None
    with r True show ?thesis
      by (auto simp: invoke_Suc)
  next
    case (Some a)
    with r True have r2: "invoke en n a K st = Some (r, st')"
      by (simp add: invoke_Suc)
    from g True Some have "a \<notin> W"
      by (simp add: amb_ok_def)
    with iv have "a \<notin> U"
      by (auto simp: world_ok_def)
    with invoke_F [OF fb r2 iv] g True show ?thesis
      by simp
  qed
next
  case False
  with r have r2: "loop en n c K (materialize c K st) = Some (r, st')"
    by (simp add: invoke_Suc)
  show ?thesis
  proof (cases "c \<in> U")
    case True
    with u obtain x where x: "is_read st c K x"
      by blast
    then have m: "materialize c K st = st"
      by (auto simp: is_read_def materialize_present)
    from loop_F [OF fb r2 [unfolded m] iv] x show ?thesis
      by blast
  next
    case F: False
    with iv False have c: "c \<notin> W"
      by (auto simp: world_ok_def)
    note f1 = frame_materialize [OF c, of U st K]
    from loop_F [OF fb r2 world_ok_frame [OF iv f1]] c f1 show ?thesis
      by (blast intro: frame_trans)
  qed
qed

lemma validate_framed:
  assumes fb: "framed_below en U W n" and iv: "world_ok U W st"
    and c: "c \<notin> U" and am: "amb_ok W st"
    and ob: "ob \<in> U \<longrightarrow> (\<forall>k\<in>set ks. \<exists>x. is_read st ob k x)"
    and r: "validate en (Suc n) c ob ks st = Some (r, st')"
  shows "frame U W st st'"
proof (cases ks)
  case Nil
  with r show ?thesis
    by simp
next
  case (Cons k ks')
  from iv have uw: "U \<subseteq> W"
    by (simp add: world_ok_def)
  from r Cons obtain o1 s1 where i1: "invoke en n c k st = Some (o1, s1)"
    by (auto simp: validate_Cons split: option.splits)
  from invoke_F [OF fb i1 iv] c am have f1: "frame U W st s1"
    by simp
  note iv1 = world_ok_frame [OF iv f1]
  from invoke_ext [OF i1] am have a1: "amb_ok W s1"
    by (auto simp: amb_ok_def amb_def)
  have ob1: "ob \<in> U \<longrightarrow> (\<forall>k\<in>set ks. \<exists>x. is_read s1 ob k x)"
    using ob frame_is_read [OF f1, of ob] uw by blast
  show ?thesis
  proof (cases o1)
    case (Throws x)
    with r Cons i1 f1 show ?thesis
      by (simp add: validate_Cons)
  next
    case (Returns a)
    with r Cons i1 obtain o2 s2 where i2: "invoke en n ob k s1 = Some (o2, s2)"
      by (auto simp: validate_Cons split: option.splits)
    from invoke_F [OF fb i2 iv1] ob1 a1 Cons have f2: "frame U W s1 s2"
      by simp
    note f12 = frame_trans [OF f1 f2]
    note iv2 = world_ok_frame [OF iv f12]
    from invoke_ext [OF i2] a1 have a2: "amb_ok W s2"
      by (auto simp: amb_ok_def amb_def)
    have ob2: "ob \<in> U \<longrightarrow> (\<forall>k\<in>set ks'. \<exists>x. is_read s2 ob k x)"
      using ob frame_is_read [OF f12, of ob] uw Cons by auto
    show ?thesis
    proof (cases o2)
      case (Throws x)
      with r Cons i1 Returns i2 f12 show ?thesis
        by (simp add: validate_Cons)
    next
      case R2: (Returns b)
      show ?thesis
      proof (cases "a = b")
        case False
        with r Cons i1 Returns i2 R2 f12 show ?thesis
          by (simp add: validate_Cons)
      next
        case True
        with r Cons i1 Returns i2 R2 have v: "validate en n c ob ks' s2 = Some (r, st')"
          by (simp add: validate_Cons)
        from validate_F [OF fb v iv2 c a2 ob2] f12 show ?thesis
          by (blast intro: frame_trans)
      qed
    qed
  qed
qed

lemma avoids_apply_fn:
  assumes env: "env_ok U W en" and c: "c \<notin> W" and fv: "fv \<notin> Ctx ` U"
  shows "avoids U W (apply_fn en fv c K)"
  using env c fv
  by (auto simp: apply_fn_def defaultLookup_def env_ok_def split: val.split key_shape.split)

lemma resolve_framed:
  assumes fb: "framed_below en U W n" and env: "env_ok U W en" and iv: "world_ok U W st"
    and c: "c \<notin> W" and pl: "\<forall>e. ents st c K = Some e \<longrightarrow> ent_v e \<notin> Ctx ` U"
    and r: "resolve en (Suc n) c K st = Some (r, st')"
  shows "frame U W st st'"
proof -
  let ?st1 = "mod_entry c K (\<lambda>e. e\<lparr>ent_s := isCreating\<rparr>) st"
  from iv have uw: "U \<subseteq> W"
    by (simp add: world_ok_def)
  with c have cu: "c \<notin> U"
    by blast
  from r obtain e where e: "ents st c K = Some e"
    by (auto simp: resolve_Suc split: option.splits)
  from r e obtain out s3 where
    run: "run en n (apply_fn en (ent_v e) c K) (enter c (Some []) ?st1) = Some (out, s3)"
    by (auto simp: resolve_Suc split: option.splits)
  from pl e have fv: "ent_v e \<notin> Ctx ` U"
    by simp
  have f1: "frame U W st ?st1"
    by (rule frame_mod_entry [OF c]) (simp_all add: entry_ok_def)
  have "frame U W ?st1 s3"
    using run_F [OF fb run _ avoids_apply_fn [OF env c fv]] world_ok_frame [OF iv f1] c by simp
  with f1 have f3: "frame U W st (restore ?st1 s3)"
    by (auto intro: frame_trans)
  show ?thesis
  proof (cases out)
    case (Throws x)
    with r e run have s: "st' = mod_entry c K (\<lambda>e. \<lparr>ent_s = hasError, ent_v = x, ent_d = None\<rparr>)
        (restore ?st1 s3)"
      by (simp add: resolve_Suc)
    have "frame U W (restore ?st1 s3) st'"
      unfolding s by (rule frame_mod_entry [OF c]) (simp_all add: entry_ok_def)
    with f3 show ?thesis
      by (blast intro: frame_trans)
  next
    case (Returns x)
    obtain eo s4 where se: "setEntry en c K wasRead x (restore ?st1 s3) = (eo, s4)"
      by (cases "setEntry en c K wasRead x (restore ?st1 s3)")
    from frame_setEntry [OF c, of wasRead x U "restore ?st1 s3" en K] se
    have "frame U W (restore ?st1 s3) s4"
      by simp
    with f3 have f4: "frame U W st s4"
      by (blast intro: frame_trans)
    show ?thesis
    proof (cases eo)
      case (Some err)
      with r e run Returns se have
        s: "st' = mod_entry c K (\<lambda>e. \<lparr>ent_s = hasError, ent_v = err, ent_d = None\<rparr>) s4"
        by (simp add: resolve_Suc)
      have "frame U W s4 st'"
        unfolding s by (rule frame_mod_entry [OF c]) (simp_all add: entry_ok_def)
      with f4 show ?thesis
        by (blast intro: frame_trans)
    next
      case None
      let ?s5 = "if log_of s3 \<noteq> []
                 then mod_entry c K
                        (\<lambda>e'. e'\<lparr>ent_d := Some \<lparr>deps_c = c, deps_f = ent_v e, deps_k = log_of s3\<rparr>\<rparr>) s4
                 else s4"
      from r e run Returns se None have l: "loop en n c K ?s5 = Some (r, st')"
        by (simp add: resolve_Suc)
      have "frame U W s4 ?s5"
        using frame_mod_entry [OF c, of
            "\<lambda>e'. e'\<lparr>ent_d := Some \<lparr>deps_c = c, deps_f = ent_v e, deps_k = log_of s3\<rparr>\<rparr>" U s4 K]
          cu fv
        by (simp add: entry_ok_def)
      with f4 have f5: "frame U W st ?s5"
        by (blast intro: frame_trans)
      from loop_F [OF fb l world_ok_frame [OF iv f5]] c f5 show ?thesis
        by (blast intro: frame_trans)
    qed
  qed
qed

lemma loop_framed:
  assumes fb: "framed_below en U W n" and iv: "world_ok U W st"
    and c: "c \<notin> W \<or> (\<exists>x. is_read st c K x)"
    and r: "loop en (Suc n) c K st = Some (r, st')"
  shows "frame U W st st'"
proof -
  from iv have uw: "U \<subseteq> W"
    by (simp add: world_ok_def)
  from r obtain e where e: "ents st c K = Some e"
    by (auto simp: loop_Suc split: option.splits)
  show ?thesis
  proof (cases "ent_s e")
    case wasRead
    with r e show ?thesis
      by (auto simp: loop_Suc)
  next
    case hasError
    with r e show ?thesis
      by (auto simp: loop_Suc)
  next
    case isCreating
    with r e show ?thesis
      by (auto simp: loop_Suc)
  next
    case hasFactory
    with c e have cw: "c \<notin> W"
      by (auto simp: is_read_def)
    from r e hasFactory have rs: "resolve en n c K st = Some (r, st')"
      by (simp add: loop_Suc)
    from world_ok_payload [OF iv e] hasFactory e
    have "\<forall>e. ents st c K = Some e \<longrightarrow> ent_v e \<notin> Ctx ` U"
      by (simp add: entry_ok_def)
    from resolve_F [OF fb rs iv cw this] show ?thesis .
  next
    case hasValue
    with c e have cw: "c \<notin> W"
      by (auto simp: is_read_def)
    with uw have cu: "c \<notin> U"
      by blast
    show ?thesis
    proof (cases "ent_d e")
      case None
      let ?s1 = "mod_entry c K (\<lambda>e. e\<lparr>ent_s := wasRead\<rparr>) st"
      from r e hasValue None have l: "loop en n c K ?s1 = Some (r, st')"
        by (simp add: loop_Suc)
      have f1: "frame U W st ?s1"
        by (rule frame_mod_entry [OF cw]) (simp_all add: entry_ok_def)
      from loop_F [OF fb l world_ok_frame [OF iv f1]] cw f1 show ?thesis
        by (blast intro: frame_trans)
    next
      case (Some dp)
      with r e hasValue obtain out sv where
        v: "validate en n c (deps_c dp) (deps_k dp) (enter c None st) = Some (out, sv)"
        by (auto simp: loop_Suc split: option.splits)
      from e Some have "dp \<in> records st"
        by (auto simp: records_def)
      with iv have ob: "deps_c dp \<in> U \<longrightarrow> (\<forall>k\<in>set (deps_k dp). \<exists>x. is_read st (deps_c dp) k x)"
        by (auto simp: world_ok_def deps_sound_def)
      have ob': "deps_c dp \<in> U \<longrightarrow>
          (\<forall>k\<in>set (deps_k dp). \<exists>x. is_read (enter c None st) (deps_c dp) k x)"
        using ob by (simp add: is_read_def)
      from validate_F [OF fb v _ cu _ ob'] iv cw have "frame U W st sv"
        by simp
      then have fv: "frame U W st (restore st sv)"
        by simp
      show ?thesis
      proof (cases out)
        case (Throws x)
        with r e hasValue Some v fv show ?thesis
          by (simp add: loop_Suc)
      next
        case (Returns b)
        show ?thesis
        proof (cases "b = Bool True")
          case True
          let ?s1 = "mod_entry c K (\<lambda>e. e\<lparr>ent_s := wasRead\<rparr>) (restore st sv)"
          from True r e hasValue Some v Returns have l: "loop en n c K ?s1 = Some (r, st')"
            by (simp add: loop_Suc)
          have "frame U W (restore st sv) ?s1"
            by (rule frame_mod_entry [OF cw]) (simp_all add: entry_ok_def)
          with fv have f1: "frame U W st ?s1"
            by (blast intro: frame_trans)
          from loop_F [OF fb l world_ok_frame [OF iv f1]] cw f1 show ?thesis
            by (blast intro: frame_trans)
        next
          case False
          let ?s1 = "mod_entry c K (\<lambda>e. e\<lparr>ent_v := deps_f dp\<rparr>) (restore st sv)"
          from False r e hasValue Some v Returns have l: "resolve en n c K ?s1 = Some (r, st')"
            by (simp add: loop_Suc)
          from world_ok_payload [OF iv e] Some have df: "deps_f dp \<notin> Ctx ` U"
            by (simp add: entry_ok_def)
          have "frame U W (restore st sv) ?s1"
            by (rule frame_mod_entry [OF cw]) (use df in \<open>simp_all add: entry_ok_def\<close>)
          with fv have f1: "frame U W st ?s1"
            by (blast intro: frame_trans)
          from df have "\<forall>e. ents ?s1 c K = Some e \<longrightarrow> ent_v e \<notin> Ctx ` U"
            by auto
          from resolve_F [OF fb l world_ok_frame [OF iv f1] cw this] f1 show ?thesis
            by (blast intro: frame_trans)
        qed
      qed
    qed
  qed
qed

lemma framed_below_all:
  assumes env: "env_ok U W en"
  shows "framed_below en U W n"
proof (induction n)
  case 0
  show ?case
    by (simp add: framed_below_def)
next
  case (Suc n)
  show ?case
    unfolding framed_below_def
  proof (intro allI impI)
    fix t st r st'
    assume s: "step en (Suc n) t st = Some (r, st')" and iv: "world_ok U W st" and k: "task_ok U W t st"
    show "frame U W st st'"
    proof (cases t)
      case (Run p)
      with s k run_framed [OF Suc iv, of p r st'] show ?thesis
        by (simp add: run_def task_ok_def)
    next
      case (Invoke c K)
      with s k invoke_framed [OF Suc iv, of c K r st'] show ?thesis
        by (simp add: invoke_def task_ok_def)
    next
      case (Loop c K)
      with s k loop_framed [OF Suc iv, of c K r st'] show ?thesis
        by (simp add: loop_def task_ok_def)
    next
      case (Resolve c K)
      with s k resolve_framed [OF Suc env iv, of c K r st'] show ?thesis
        by (simp add: resolve_def task_ok_def)
    next
      case (Validate c ob ks)
      with s k validate_framed [OF Suc iv, of c ob ks r st'] show ?thesis
        by (simp add: validate_def task_ok_def)
    qed
  qed
qed

lemma invoke_framed_all:
  assumes env: "env_ok U W en" and iv: "world_ok U W st"
    and u: "c \<in> U \<longrightarrow> (\<exists>x. is_read st c K x)" and g: "prevs st c = [] \<longrightarrow> amb_ok W st"
    and r: "invoke en n c K st = Some (r, st')"
  shows "frame U W st st'"
  using invoke_F [OF framed_below_all [OF env] r iv u g] .

section \<open>Errors of factories and lookups of a key that is being created\<close>

lemma resolve_throws:
  assumes e: "ents st c K = Some e"
    and f: "run en n (apply_fn en (ent_v e) c K)
              (enter c (Some []) (mod_entry c K (\<lambda>e. e\<lparr>ent_s := isCreating\<rparr>) st)) =
            Some (Throws x, st3)"
  shows "\<exists>st'. resolve en (Suc n) c K st = Some (Throws x, st') \<and>
           ents st' c K = Some \<lparr>ent_s = hasError, ent_v = x, ent_d = None\<rparr> \<and>
           ext {(c, K)} st st' \<and> amb st st'"
proof -
  let ?st1 = "mod_entry c K (\<lambda>e. e\<lparr>ent_s := isCreating\<rparr>) st"
  let ?st' = "mod_entry c K (\<lambda>e. \<lparr>ent_s = hasError, ent_v = x, ent_d = None\<rparr>) (restore ?st1 st3)"
  from e f have r: "resolve en (Suc n) c K st = Some (Throws x, ?st')"
    by (simp add: resolve_Suc)
  from run_ext [OF f] have x: "ext {} ?st1 st3"
    by simp
  from e have "ents ?st1 c K \<noteq> None"
    by simp
  from ext_dom [OF x this] have "ents ?st' c K = Some \<lparr>ent_s = hasError, ent_v = x, ent_d = None\<rparr>"
    by auto
  with r resolve_ext [OF r] show ?thesis
    by simp
qed

lemma failed_again:
  "prevs st c \<noteq> [] \<Longrightarrow> ents st c K = Some e \<Longrightarrow> ent_s e = hasError \<Longrightarrow>
   invoke en (Suc (Suc m)) c K st = Some (Throws (ent_v e), st)"
  by (simp add: invoke_regular materialize_present loop_hasError)

lemma loop_isCreating:
  "ents st c K = Some e \<Longrightarrow> ent_s e = isCreating \<Longrightarrow>
   loop en (Suc n) c K st =
     Some (Throws (ErrObj (nobj st) Error (cycle_msg en (ent_v e) K)), st\<lparr>nobj := Suc (nobj st)\<rparr>)"
  by (simp add: loop_Suc)

lemma invoke_isCreating:
  "prevs st c \<noteq> [] \<Longrightarrow> ents st c K = Some e \<Longrightarrow> ent_s e = isCreating \<Longrightarrow>
   invoke en (Suc (Suc n)) c K st =
     Some (Throws (ErrObj (nobj st) Error (cycle_msg en (ent_v e) K)), st\<lparr>nobj := Suc (nobj st)\<rparr>)"
  by (simp add: invoke_regular materialize_present loop_isCreating)

lemma resolve_throws_cached:
  assumes e: "ents st c K = Some e"
    and f: "run en n (apply_fn en (ent_v e) c K)
              (enter c (Some []) (mod_entry c K (\<lambda>e. e\<lparr>ent_s := isCreating\<rparr>) st)) =
            Some (Throws x, st3)"
  shows "\<exists>st'. resolve en (Suc n) c K st = Some (Throws x, st') \<and>
           ents st' c K = Some \<lparr>ent_s = hasError, ent_v = x, ent_d = None\<rparr> \<and>
           ctx st' = ctx st \<and>
           (prevs st c \<noteq> [] \<and> ent_s e = hasFactory \<longrightarrow>
              invoke en (Suc (Suc (Suc n))) c K st = Some (Throws x, st')) \<and>
           (\<forall>en' m st''. prevs st'' c \<noteq> [] \<and> ents st'' c K = ents st' c K \<longrightarrow>
              invoke en' (Suc (Suc m)) c K st'' = Some (Throws x, st''))"
proof -
  from resolve_throws [OF e f] obtain st' where
    r: "resolve en (Suc n) c K st = Some (Throws x, st')"
    and e': "ents st' c K = Some \<lparr>ent_s = hasError, ent_v = x, ent_d = None\<rparr>"
    and a: "amb st st'"
    by blast
  have i: "prevs st c \<noteq> [] \<and> ent_s e = hasFactory \<longrightarrow>
      invoke en (Suc (Suc (Suc n))) c K st = Some (Throws x, st')"
    using e r by (simp add: invoke_regular materialize_present loop_hasFactory)
  have l: "\<forall>en' m st''. prevs st'' c \<noteq> [] \<and> ents st'' c K = ents st' c K \<longrightarrow>
      invoke en' (Suc (Suc m)) c K st'' = Some (Throws x, st'')"
  proof (intro allI impI)
    fix en' m and st'' :: world
    assume h: "prevs st'' c \<noteq> [] \<and> ents st'' c K = ents st' c K"
    with e' have "ents st'' c K = Some \<lparr>ent_s = hasError, ent_v = x, ent_d = None\<rparr>"
      by simp
    with h failed_again [of st'' c K "\<lparr>ent_s = hasError, ent_v = x, ent_d = None\<rparr>" en' m]
    show "invoke en' (Suc (Suc m)) c K st'' = Some (Throws x, st'')"
      by simp
  qed
  from r e' a i l show ?thesis
    by (auto simp: amb_def)
qed

section \<open>C1: smart sharing\<close>





section \<open>C2: repeated lookups\<close>

text \<open>
  C2 says that every lookup of \<open>K\<close> in \<open>C\<close> after the first returns the same value or throws
  the same error object. Here the factory of key 3 forks a context from its own and looks
  key 3 up there twice, catching what is thrown. The fork copies the entry that is being
  created; each lookup in the fork finds the copy \<open>isCreating\<close> and throws a new error, and
  the copy is never changed. The two errors are different objects.
\<close>

theorem resolving_copy_throws_fresh_errors:
  "map_option fst (run demo_env 20 (Fork 0 (\<lambda>p. Def p 3 (Fn 6) (Use p 3 Return))) init) =
     Some (Returns (Bool False)) \<and>
   map_option (\<lambda>rw. ents (snd rw) 2 3)
     (run demo_env 20 (Fork 0 (\<lambda>p. Def p 3 (Fn 6) (Use p 3 Return))) init) =
     Some (Some \<lparr>ent_s = isCreating, ent_v = Fn 6, ent_d = None\<rparr>) \<and>
   map_option fst
     (run demo_env 20
        (Fork 0 (\<lambda>p. Def p 3 (Fn 6) (Use p 3 (\<lambda>b. Try (Use 2 3 Return) Throw Return)))) init) =
     Some (Throws (ErrObj 2 Error ''Factory fn didn't resolve K''))"
  by (simp add: eval_simps)

section \<open>C3: a write after a read\<close>

text \<open>
  C3 says that once \<^verbatim>\<open>C(K)\<close> has completed, whether it returned or threw, \<^verbatim>\<open>C.set(K, v)\<close>
  and \<^verbatim>\<open>C.def(K, f)\<close> throw "Already read". \<^verbatim>\<open>setEntry\<close> throws only for the state
  \<open>wasRead\<close>. Here a context is forked, a factory that throws is defined for key 3, the
  lookup throws, then \<^verbatim>\<open>set\<close> on the same key succeeds and the next lookup returns the new
  value; \<^verbatim>\<open>set\<close> and \<^verbatim>\<open>def\<close> on the failed entry of \<open>w_failed\<close> return no error.
\<close>

theorem write_after_failed_read:
  "map_option fst
     (run demo_env 12
        (Fork 0 (\<lambda>c. Def c 3 (Fn 5)
           (Try (Use c 3 Return) (\<lambda>e. Set c 3 (Prim 5) (Use c 3 Return)) Return)))
        init) = Some (Returns (Prim 5)) \<and>
   fst (ctx_set demo_env 1 3 (Prim 5) w_failed) = None \<and>
   fst (ctx_def demo_env 1 3 (Fn 1) w_failed) = None"
  by (simp add: eval_simps ctx_set_def ctx_def_def w_failed_def)

section \<open>C4: the error of a factory is cached\<close>

text \<open>
  C4 says that the error of a factory is thrown again, the identical object, by every
  later lookup of the key in the context, and that the factory is never called again.
  The engine stores the error in the entry, in state \<open>hasError\<close>, but \<^verbatim>\<open>setEntry\<close> accepts
  a write to an entry in that state. Here a context is forked and a factory that throws is
  defined for key 3; the lookup throws the error object 0. Then \<^verbatim>\<open>def\<close> on the same key
  is accepted, the factory runs again, and the second lookup throws another object.
\<close>

theorem failed_factory_runs_again:
  "map_option fst
     (run demo_env 14
        (Fork 0 (\<lambda>c. Def c 3 (Fn 5) (Try (Use c 3 Return) Return Return))) init) =
     Some (Returns (ErrObj 0 Error ''boom'')) \<and>
   map_option fst
     (run demo_env 14
        (Fork 0 (\<lambda>c. Def c 3 (Fn 5)
           (Try (Use c 3 Return)
              (\<lambda>e1. Def c 3 (Fn 5) (Try (Use c 3 Return) Return Return)) Return))) init) =
     Some (Returns (ErrObj 1 Error ''boom'')) \<and>
   map_option fst
     (run demo_env 14
        (Fork 0 (\<lambda>c. Def c 3 (Fn 5)
           (Try (Use c 3 Return)
              (\<lambda>e1. Def c 3 (Fn 5)
                 (Try (Use c 3 Return) (\<lambda>e2. Return (Bool (e1 = e2))) Return)) Return))) init) =
     Some (Returns (Bool False))"
  by (simp add: eval_simps)

section \<open>C5: a lookup of the key that is being created\<close>

text \<open>
  C5 says that a lookup of \<open>K\<close> made while the factory of \<open>K\<close> runs in the same context
  throws a cycle error, that the entry becomes \<open>hasError\<close> with that error, and that every
  later lookup throws the identical object. \<^verbatim>\<open>case State.isCreating\<close> throws a new error
  and stores nothing. Here the factory of key 3 looks key 3 up twice in its own context,
  catches both errors and returns whether they are the same object: they are not, and the
  entry ends \<open>wasRead\<close> with that answer. A factory that catches the error and returns 1
  leaves the entry \<open>wasRead\<close> with 1, which the next lookup returns.
\<close>

theorem cycle_error_is_not_stored:
  "map_option fst
     (run demo_env 14 (Fork 0 (\<lambda>c. Def c 3 (Fn 8) (Use c 3 Return))) init) =
     Some (Returns (Bool False)) \<and>
   map_option (\<lambda>rw. ents (snd rw) 1 3)
     (run demo_env 14 (Fork 0 (\<lambda>c. Def c 3 (Fn 8) (Use c 3 Return))) init) =
     Some (Some \<lparr>ent_s = wasRead, ent_v = Bool False, ent_d = None\<rparr>) \<and>
   map_option fst
     (run demo_env 14 (Fork 0 (\<lambda>c. Def c 3 (Fn 4) (Use c 3 (\<lambda>a. Use c 3 Return)))) init) =
     Some (Returns (Prim 1)) \<and>
   map_option (\<lambda>rw. ents (snd rw) 1 3)
     (run demo_env 14 (Fork 0 (\<lambda>c. Def c 3 (Fn 4) (Use c 3 (\<lambda>a. Use c 3 Return)))) init) =
     Some (Some \<lparr>ent_s = wasRead, ent_v = Prim 1, ent_d = None\<rparr>)"
  by (simp add: eval_simps)

section \<open>C6: the local entry of a key that is looked up\<close>

lemma find_prev_none: "\<forall>r\<in>set rs. ents st r K = None \<Longrightarrow> find_prev st rs K = None"
  by (induction rs) simp_all

lemma find_prev_first:
  "\<forall>r\<in>set pre. ents st r K = None \<Longrightarrow> ents st a K = Some e \<Longrightarrow>
   find_prev st (pre @ a # post) K = Some e"
  by (induction pre) simp_all

text \<open>
  C6, amended. A lookup of \<open>K\<close> in a registry that has an entry for it leaves the world as
  it is. Otherwise the nearest registry of the \<^verbatim>\<open>prev\<close> chain that has an entry for \<open>K\<close> is
  found, and the new local entry is a copy of it (payload and dependency record) whose state
  is the ancestor's, except that \<open>wasRead\<close> becomes \<open>hasValue\<close>; when no registry of the chain
  has an entry, the new entry is \<open>hasFactory\<close> with \<^verbatim>\<open>defaultLookup\<close>. Nothing but the entry
  of \<open>K\<close> in this registry changes.
\<close>

theorem materialize_copies:
  "(\<forall>e. ents st c K = Some e \<longrightarrow> materialize c K st = st) \<and>
   (ents st c K = None \<longrightarrow>
      (\<forall>pre a post e.
          prevs st c = pre @ a # post \<and> (\<forall>r\<in>set pre. ents st r K = None) \<and>
          ents st a K = Some e \<longrightarrow>
          ents (materialize c K st) c K =
            Some (e\<lparr>ent_s := (if ent_s e = wasRead then hasValue else ent_s e)\<rparr>)) \<and>
      ((\<forall>r\<in>set (prevs st c). ents st r K = None) \<longrightarrow>
          ents (materialize c K st) c K =
            Some \<lparr>ent_s = hasFactory, ent_v = DefaultLookup, ent_d = None\<rparr>)) \<and>
   (\<forall>c' K'. (c', K') \<noteq> (c, K) \<longrightarrow> ents (materialize c K st) c' K' = ents st c' K') \<and>
   prevs (materialize c K st) = prevs st \<and> ctx (materialize c K st) = ctx st \<and>
   used (materialize c K st) = used st"
proof (intro conjI allI impI)
  fix pre a post e
  assume n: "ents st c K = None"
    and "prevs st c = pre @ a # post \<and> (\<forall>r\<in>set pre. ents st r K = None) \<and> ents st a K = Some e"
  then have "find_prev st (prevs st c) K = Some e"
    by (simp add: find_prev_first)
  with n show "ents (materialize c K st) c K =
      Some (e\<lparr>ent_s := (if ent_s e = wasRead then hasValue else ent_s e)\<rparr>)"
    by (simp add: materialize_absent)
next
  assume n: "ents st c K = None" and "\<forall>r\<in>set (prevs st c). ents st r K = None"
  then have "find_prev st (prevs st c) K = None"
    by (simp add: find_prev_none)
  with n show "ents (materialize c K st) c K =
      Some \<lparr>ent_s = hasFactory, ent_v = DefaultLookup, ent_d = None\<rparr>"
    by (simp add: materialize_absent)
next
  fix c' K'
  assume "(c', K') \<noteq> (c, K)"
  then show "ents (materialize c K st) c' K' = ents st c' K'"
    by (simp add: materialize_other)
qed (simp_all add: materialize_present)

theorem materialize_copies_witness:
  "ents w_child 2 5 = None \<and>
   ents (materialize 2 5 w_child) 2 5 = Some \<lparr>ent_s = hasValue, ent_v = Obj 0, ent_d = None\<rparr> \<and>
   ents w_child 2 3 = None \<and>
   ents (materialize 2 3 w_child) 2 3 =
     Some \<lparr>ent_s = hasFactory, ent_v = DefaultLookup, ent_d = None\<rparr> \<and>
   ents (materialize 2 5 w_child) 1 5 = ents w_child 1 5 \<and>
   materialize 2 7 w_child = w_child"
proof -
  note T = materialize_copies [of w_child 2 5] and U = materialize_copies [of w_child 2 3]
    and V = materialize_copies [of w_child 2 7]
  have n: "ents w_child 2 5 = None" "ents w_child 2 3 = None"
    by (simp_all add: w_child_def)
  have p: "prevs w_child 2 = [] @ 1 # [0]"
    by (simp add: w_child_def)
  have e: "ents w_child 1 5 = Some \<lparr>ent_s = wasRead, ent_v = Obj 0, ent_d = None\<rparr>"
    by (simp add: w_child_def)
  have z: "\<forall>r\<in>set (prevs w_child 2). ents w_child r 3 = None"
    by (simp add: w_child_def)
  have l: "ents w_child 2 7 = Some \<lparr>ent_s = hasValue, ent_v = Obj 1, ent_d = Some shared_deps\<rparr>"
    by (simp add: w_child_def)
  note T1 = T [THEN conjunct2, THEN conjunct1, THEN mp, OF n(1), THEN conjunct1, rule_format,
      of "[]" 1 "[0]" "\<lparr>ent_s = wasRead, ent_v = Obj 0, ent_d = None\<rparr>"]
  from T1 p e have a: "ents (materialize 2 5 w_child) 2 5 =
      Some \<lparr>ent_s = hasValue, ent_v = Obj 0, ent_d = None\<rparr>"
    by simp
  note U1 = U [THEN conjunct2, THEN conjunct1, THEN mp, OF n(2), THEN conjunct2, THEN mp, OF z]
  from U1 have b: "ents (materialize 2 3 w_child) 2 3 =
      Some \<lparr>ent_s = hasFactory, ent_v = DefaultLookup, ent_d = None\<rparr>" .
  from T have c: "ents (materialize 2 5 w_child) 1 5 = ents w_child 1 5"
    by simp
  from V [THEN conjunct1, rule_format, OF l] have d: "materialize 2 7 w_child = w_child" .
  from n a b c d show ?thesis
    by simp
qed

text \<open>
  The claim as stated (state forced to \<open>hasValue\<close>) fails where the ancestor holds a factory
  that was never run: the copy is \<open>hasFactory\<close>, so that the factory runs in the child.
\<close>

theorem materialize_keeps_factory_state:
  "ents w_factory 2 5 = None \<and>
   find_prev w_factory (prevs w_factory 2) 5 = Some \<lparr>ent_s = hasFactory, ent_v = Fn 1, ent_d = None\<rparr> \<and>
   ents (materialize 2 5 w_factory) 2 5 = Some \<lparr>ent_s = hasFactory, ent_v = Fn 1, ent_d = None\<rparr> \<and>
   map_option ent_s (ents (materialize 2 5 w_factory) 2 5) \<noteq> Some hasValue"
  by (simp add: materialize_def w_factory_def)

section \<open>C7: the global context delegates to the ambient one\<close>

text \<open>
  C7. The global context \<open>g\<close> is the one without \<^verbatim>\<open>prev\<close>. With no ambient context, calling it
  with a key and reading \<^verbatim>\<open>use.this\<close> both throw a fresh TypeError "No current context";
  with the ambient context \<open>a\<close>, calling it with \<open>K\<close> is the call \<^verbatim>\<open>a(K)\<close> and \<^verbatim>\<open>use.this\<close> is
  \<open>a\<close>. The ambient context is set by \<^verbatim>\<open>exec\<close> (\<open>enter\<close>) around a factory and every completed
  program leaves it as it was, so outside every factory execution it is the initial one,
  none.
\<close>

theorem global_delegates:
  assumes g: "prevs st g = []"
  shows "(ctx st = None \<longrightarrow>
            invoke en (Suc n) g K st =
              Some (Throws (ErrObj (nobj st) TypeError ''No current context''),
                    st\<lparr>nobj := Suc (nobj st)\<rparr>) \<and>
            run en (Suc n) (This cont) st =
              Some (Throws (ErrObj (nobj st) TypeError ''No current context''),
                    st\<lparr>nobj := Suc (nobj st)\<rparr>)) \<and>
         (\<forall>a. ctx st = Some a \<longrightarrow>
            invoke en (Suc n) g K st = invoke en n a K st \<and>
            run en (Suc n) (This cont) st = run en n (cont a) st) \<and>
         (\<forall>m p r st'. run en m p st = Some (r, st') \<longrightarrow> ctx st' = ctx st) \<and>
         (\<forall>c dl. ctx (enter c dl st) = Some c)"
proof (intro conjI allI impI)
  fix m p r st'
  assume "run en m p st = Some (r, st')"
  from run_ext [OF this] show "ctx st' = ctx st"
    by (simp add: amb_def)
qed (simp_all add: invoke_Suc run_This g)

theorem global_delegates_witness:
  "invoke demo_env (Suc 0) 0 5 w_child =
     Some (Throws (ErrObj 2 TypeError ''No current context''), w_child\<lparr>nobj := 3\<rparr>) \<and>
   run demo_env (Suc 0) (This (\<lambda>a. Return (Ctx a))) w_child =
     Some (Throws (ErrObj 2 TypeError ''No current context''), w_child\<lparr>nobj := 3\<rparr>) \<and>
   invoke demo_env (Suc (Suc (Suc 0))) 0 5 (enter 1 (Some []) w_child) =
     invoke demo_env (Suc (Suc 0)) 1 5 (enter 1 (Some []) w_child) \<and>
   map_option fst (invoke demo_env (Suc (Suc (Suc 0))) 0 5 (enter 1 (Some []) w_child)) =
     Some (Returns (Obj 0))"
proof -
  have g: "prevs w_child 0 = []" and n: "ctx w_child = None" and o: "nobj w_child = 2"
    by (simp_all add: w_child_def)
  have g': "prevs (enter 1 (Some []) w_child) 0 = []"
    by (simp add: w_child_def)
  have e: "ents w_child 1 5 = Some \<lparr>ent_s = wasRead, ent_v = Obj 0, ent_d = None\<rparr>"
    and r: "prevs w_child 1 \<noteq> []"
    by (simp_all add: w_child_def)
  have v: "invoke demo_env (Suc (Suc 0)) 1 5 (enter 1 (Some []) w_child) =
      Some (Returns (Obj 0), note_read 1 5 (enter 1 (Some []) w_child))"
    using e r by (simp add: invoke_regular materialize_present loop_wasRead)
  from global_delegates [OF g, of demo_env 0 5 "\<lambda>a. Return (Ctx a)"] n o
  have a: "invoke demo_env (Suc 0) 0 5 w_child =
      Some (Throws (ErrObj 2 TypeError ''No current context''), w_child\<lparr>nobj := 3\<rparr>)"
    and b: "run demo_env (Suc 0) (This (\<lambda>a. Return (Ctx a))) w_child =
      Some (Throws (ErrObj 2 TypeError ''No current context''), w_child\<lparr>nobj := 3\<rparr>)"
    by simp_all
  from global_delegates [OF g', of demo_env "Suc (Suc 0)" 5]
  have c: "invoke demo_env (Suc (Suc (Suc 0))) 0 5 (enter 1 (Some []) w_child) =
      invoke demo_env (Suc (Suc 0)) 1 5 (enter 1 (Some []) w_child)"
    by simp
  from a b c v show ?thesis
    by simp
qed

section \<open>C8: the registries of the ancestors\<close>

text \<open>
  C8, amended. Let the functions of the environment, whenever they run in a context that is
  no ancestor of \<open>C\<close>, call no regular ancestor of \<open>C\<close>, call \<^verbatim>\<open>set\<close> and \<^verbatim>\<open>def\<close> on no
  ancestor of \<open>C\<close> and register no regular ancestor of \<open>C\<close> as a factory (they may use the
  context they are given, the global context and the contexts they fork). Let no pending
  factory and no factory of a dependency record be a regular ancestor of \<open>C\<close>, and let every
  dependency record whose context is an ancestor of \<open>C\<close> name only keys that this ancestor
  has read. Then a lookup in \<open>C\<close> that ends, with a value or an error, leaves the registry
  and the \<^verbatim>\<open>prev\<close> link of every ancestor of \<open>C\<close> as they were.
\<close>

theorem ancestors_untouched:
  assumes acyclic: "c \<notin> ancestors st c"
    and exist: "\<forall>a\<in>ancestors st c. a < nctx st"
    and sound: "deps_sound (regular_of st (ancestors st c)) st"
    and payloads: "payload_ok (regular_of st (ancestors st c)) st"
    and env: "env_ok (regular_of st (ancestors st c)) (ancestors st c) en"
    and r: "invoke en n c K st = Some (r, st')"
  shows "\<forall>a\<in>ancestors st c. ents st' a = ents st a \<and> prevs st' a = prevs st a"
proof -
  let ?W = "ancestors st c"
  let ?U = "regular_of st ?W"
  from exist sound payloads have iv: "world_ok ?U ?W st"
    by (auto simp: world_ok_def regular_of_def)
  from acyclic have u: "c \<in> ?U \<longrightarrow> (\<exists>x. is_read st c K x)"
    by (simp add: regular_of_def)
  have g: "prevs st c = [] \<longrightarrow> amb_ok ?W st"
    by (simp add: amb_ok_def ancestors_def)
  from invoke_framed_all [OF env iv u g r] show ?thesis
    by (simp add: frame_def)
qed

theorem ancestors_untouched_witness:
  "\<exists>st'. invoke tidy_env 8 2 7 w_over = Some (Throws (ErrObj 2 Error ''boom''), st') \<and>
     ancestors w_over 2 = {0, 1} \<and>
     ents st' 0 = ents w_over 0 \<and> ents st' 1 = ents w_over 1 \<and>
     ents w_over 2 7 = None \<and>
     ents st' 2 7 = Some \<lparr>ent_s = hasValue, ent_v = Obj 1, ent_d = Some shared_deps\<rparr> \<and>
     ents st' 2 5 = Some \<lparr>ent_s = hasError, ent_v = ErrObj 2 Error ''boom'', ent_d = None\<rparr>"
proof -
  define st' where "st' = snd (the (invoke tidy_env 8 2 7 w_over))"
  have i: "invoke tidy_env 8 2 7 w_over = Some (Throws (ErrObj 2 Error ''boom''), st')"
    by (simp add: st'_def eval_simps w_over_def shared_deps_def)
  have a: "ancestors w_over 2 = {0, 1}"
    by (auto simp: ancestors_def w_over_def)
  have u: "regular_of w_over {0, 1} = {1}"
    by (auto simp: regular_of_def w_over_def)
  have h1: "2 \<notin> ancestors w_over 2"
    by (simp add: a)
  have h2: "\<forall>a\<in>ancestors w_over 2. a < nctx w_over"
    by (simp add: a) (simp add: w_over_def)
  have h3: "deps_sound (regular_of w_over (ancestors w_over 2)) w_over"
    unfolding a u deps_sound_def records_def
    by (auto simp: w_over_def shared_deps_def is_read_def split: if_splits)
  have h4: "payload_ok (regular_of w_over (ancestors w_over 2)) w_over"
    unfolding a u payload_ok_def entry_ok_def
    by (auto simp: w_over_def shared_deps_def split: if_splits)
  have h5: "env_ok (regular_of w_over (ancestors w_over 2)) (ancestors w_over 2) tidy_env"
    unfolding a u env_ok_def by (simp add: demo_env_def)
  from ancestors_untouched [OF h1 h2 h3 h4 h5 i]
  have "ents st' 0 = ents w_over 0 \<and> ents st' 1 = ents w_over 1"
    by (simp add: a)
  moreover have "ents w_over 2 7 = None"
    by (simp add: w_over_def)
  moreover have
    "ents st' 2 7 = Some \<lparr>ent_s = hasValue, ent_v = Obj 1, ent_d = Some shared_deps\<rparr>"
    "ents st' 2 5 = Some \<lparr>ent_s = hasError, ent_v = ErrObj 2 Error ''boom'', ent_d = None\<rparr>"
    by (simp_all add: st'_def eval_simps w_over_def shared_deps_def)
  ultimately show ?thesis
    using i a by blast
qed

text \<open>
  The claim as stated fails for a factory that redirects the lookup to an ancestor, as the
  scoped factories of the documentation do: the lookup of key 5 in context 2 runs such a
  factory, and the registry of context 1, which had no entry for key 5, has one afterwards.
  It fails as well when the factory is the ancestor itself: \<^verbatim>\<open>exec\<close> calls context 1 with
  context 2 as the key, and context 1 stores an entry for that key.
\<close>

theorem scoped_factory_writes_to_ancestor:
  "prevs w_scoped 2 = [1, 0] \<and> ents w_scoped 1 5 = None \<and>
   map_option fst (invoke demo_env 12 2 5 w_scoped) = Some (Returns (Obj 0)) \<and>
   map_option (\<lambda>rw. ents (snd rw) 1 5) (invoke demo_env 12 2 5 w_scoped) =
     Some (Some \<lparr>ent_s = wasRead, ent_v = Obj 0, ent_d = None\<rparr>) \<and>
   prevs w_ctx_factory 2 = [1, 0] \<and> ents w_ctx_factory 1 (ctx_key demo_env 2) = None \<and>
   map_option fst (invoke demo_env 12 2 3 w_ctx_factory) =
     Some (Throws (ErrObj 0 ReferenceError ''No config for K'')) \<and>
   map_option (\<lambda>rw. ents (snd rw) 1 (ctx_key demo_env 2)) (invoke demo_env 12 2 3 w_ctx_factory) =
     Some (Some \<lparr>ent_s = hasError, ent_v = ErrObj 0 ReferenceError ''No config for K'',
                 ent_d = None\<rparr>)"
  by (simp add: eval_simps w_scoped_def w_ctx_factory_def demo_fn_Suc_0 demo_env_def)

section \<open>C9: a write clears the dependency record\<close>



section \<open>C10: the keys a check reaches\<close>




section \<open>A value that was read\<close>

text \<open>
  A value that a lookup returned stays: in every later world the same lookup returns it
  again, whatever the environment, and \<^verbatim>\<open>set\<close> and \<^verbatim>\<open>def\<close> on the key throw "Already read".
\<close>

theorem read_value_is_stable:
  assumes reg: "prevs st c \<noteq> []" and i: "invoke en n c K st = Some (Returns x, st')"
    and later: "ext {} st' st''"
  shows "is_read st'' c K x \<and>
         (\<forall>en' m. invoke en' (Suc (Suc m)) c K st'' = Some (Returns x, note_read c K st'')) \<and>
         (\<forall>y. ctx_set en c K y st'' =
            (Some (ErrObj (nobj st'') Error (''Already read: '' @ key_str en K)),
             st''\<lparr>nobj := Suc (nobj st'')\<rparr>)) \<and>
         (\<forall>fv. ctx_def en c K fv st'' =
            (Some (ErrObj (nobj st'') Error (''Already read: '' @ key_str en K)),
             st''\<lparr>nobj := Suc (nobj st'')\<rparr>))"
proof -
  from invoke_ext [OF i] have "ext {} st st'"
    by simp
  from ext_regular [OF later ext_regular [OF this reg]] have reg'': "prevs st'' c \<noteq> []" .
  from is_read_ext [OF invoke_returns_read [OF reg i] later] have r: "is_read st'' c K x" .
  with reg'' show ?thesis
    by (simp add: read_again read_rejects_write ctx_set_def ctx_def_def)
qed

theorem read_value_is_stable_witness:
  "\<exists>st'. invoke demo_env (Suc (Suc (Suc 0))) 2 7 (snd (ctx_set demo_env 2 7 (Prim 9) w_child)) =
            Some (Returns (Prim 9), st') \<and>
         is_read st' 2 7 (Prim 9) \<and>
         invoke demo_env (Suc (Suc 0)) 2 7 st' = Some (Returns (Prim 9), note_read 2 7 st') \<and>
         fst (ctx_set demo_env 2 7 (Prim 1) st') \<noteq> None"
proof -
  let ?w = "snd (ctx_set demo_env 2 7 (Prim 9) w_child)"
  have w: "?w = upd_entry 2 7 \<lparr>ent_s = hasValue, ent_v = Prim 9, ent_d = None\<rparr> w_child"
    by (simp add: ctx_set_def setEntry_def w_child_def)
  have reg: "prevs ?w 2 \<noteq> []"
    unfolding w by (simp add: w_child_def)
  have e: "ents ?w 2 7 = Some \<lparr>ent_s = hasValue, ent_v = Prim 9, ent_d = None\<rparr>"
    unfolding w by simp
  let ?st' = "note_read 2 7 (mod_entry 2 7 (\<lambda>e. e\<lparr>ent_s := wasRead\<rparr>) ?w)"
  have i: "invoke demo_env (Suc (Suc (Suc 0))) 2 7 ?w = Some (Returns (Prim 9), ?st')"
    using loop_plain_value [OF e] by (simp add: invoke_regular [OF reg] materialize_present [OF e])
  from read_value_is_stable [OF reg i ext_refl] have
    "is_read ?st' 2 7 (Prim 9)"
    "\<forall>en' m. invoke en' (Suc (Suc m)) 2 7 ?st' = Some (Returns (Prim 9), note_read 2 7 ?st')"
    "\<forall>y. ctx_set demo_env 2 7 y ?st' =
       (Some (ErrObj (nobj ?st') Error (''Already read: '' @ key_str demo_env 7)),
        ?st'\<lparr>nobj := Suc (nobj ?st')\<rparr>)"
    by blast+
  then have "is_read ?st' 2 7 (Prim 9)"
    "invoke demo_env (Suc (Suc 0)) 2 7 ?st' = Some (Returns (Prim 9), note_read 2 7 ?st')"
    "fst (ctx_set demo_env 2 7 (Prim 1) ?st') \<noteq> None"
    by simp_all
  with i show ?thesis
    by blast
qed

section \<open>The error of a factory is stored\<close>

text \<open>
  The block of \<^verbatim>\<open>case State.hasFactory\<close>, entered from that case or by falling through
  from \<^verbatim>\<open>case State.hasValue\<close>: when the run of the entry's payload in \<open>C\<close> throws \<open>x\<close>, the
  block throws \<open>x\<close> and leaves the entry \<open>hasError\<close> with payload \<open>x\<close> and no dependency
  record, and the ambient context as it was. In every world in which the entry is still
  that one, every lookup of the key in \<open>C\<close> throws \<open>x\<close> and changes nothing, whatever the
  environment and the bound: no factory is consulted.
\<close>

theorem factory_error_stored:
  assumes e: "ents st c K = Some e"
    and f: "run en n (apply_fn en (ent_v e) c K)
              (enter c (Some []) (mod_entry c K (\<lambda>e. e\<lparr>ent_s := isCreating\<rparr>) st)) =
            Some (Throws x, st3)"
  shows "\<exists>st'. resolve en (Suc n) c K st = Some (Throws x, st') \<and>
           ents st' c K = Some \<lparr>ent_s = hasError, ent_v = x, ent_d = None\<rparr> \<and>
           ctx st' = ctx st \<and>
           (prevs st c \<noteq> [] \<and> ent_s e = hasFactory \<longrightarrow>
              invoke en (Suc (Suc (Suc n))) c K st = Some (Throws x, st')) \<and>
           (\<forall>en' m st''. prevs st'' c \<noteq> [] \<and> ents st'' c K = ents st' c K \<longrightarrow>
              invoke en' (Suc (Suc m)) c K st'' = Some (Throws x, st''))"
  using e f by (rule resolve_throws_cached)

theorem factory_error_stored_witness:
  "\<exists>st'. invoke demo_env (Suc (Suc (Suc (Suc 0)))) 1 3 w_boom =
            Some (Throws (ErrObj 0 Error ''boom''), st') \<and>
         ents st' 1 3 = Some \<lparr>ent_s = hasError, ent_v = ErrObj 0 Error ''boom'', ent_d = None\<rparr> \<and>
         invoke tidy_env (Suc (Suc 0)) 1 3 (st'\<lparr>nobj := 7\<rparr>) =
           Some (Throws (ErrObj 0 Error ''boom''), st'\<lparr>nobj := 7\<rparr>)"
proof -
  let ?e = "\<lparr>ent_s = hasFactory, ent_v = Fn 5, ent_d = None\<rparr>"
  let ?w = "enter 1 (Some []) (mod_entry 1 3 (\<lambda>e. e\<lparr>ent_s := isCreating\<rparr>) w_boom)"
  have reg: "prevs w_boom 1 \<noteq> []"
    by (simp add: w_boom_def)
  have e: "ents w_boom 1 3 = Some ?e"
    by (simp add: w_boom_def)
  have f: "run demo_env (Suc 0) (apply_fn demo_env (ent_v ?e) 1 3) ?w =
      Some (Throws (ErrObj 0 Error ''boom''), ?w\<lparr>nobj := Suc 0\<rparr>)"
    by (simp add: apply_fn_def w_boom_def)
  from factory_error_stored [OF e f] obtain st' where
    a: "ents st' 1 3 = Some \<lparr>ent_s = hasError, ent_v = ErrObj 0 Error ''boom'', ent_d = None\<rparr>"
    and b: "prevs w_boom 1 \<noteq> [] \<and> ent_s ?e = hasFactory \<longrightarrow>
        invoke demo_env (Suc (Suc (Suc (Suc 0)))) 1 3 w_boom =
          Some (Throws (ErrObj 0 Error ''boom''), st')"
    and c: "\<forall>en' m st''. prevs st'' 1 \<noteq> [] \<and> ents st'' 1 3 = ents st' 1 3 \<longrightarrow>
        invoke en' (Suc (Suc m)) 1 3 st'' = Some (Throws (ErrObj 0 Error ''boom''), st'')"
    by blast
  from b reg have i: "invoke demo_env (Suc (Suc (Suc (Suc 0)))) 1 3 w_boom =
      Some (Throws (ErrObj 0 Error ''boom''), st')"
    by simp
  from invoke_ext [OF i] reg have "prevs st' 1 \<noteq> []"
    by (auto dest: ext_regular)
  with c [rule_format, of "st'\<lparr>nobj := 7\<rparr>" tidy_env 0]
  have "invoke tidy_env (Suc (Suc 0)) 1 3 (st'\<lparr>nobj := 7\<rparr>) =
      Some (Throws (ErrObj 0 Error ''boom''), st'\<lparr>nobj := 7\<rparr>)"
    by simp
  with i a show ?thesis
    by blast
qed

section \<open>The cycle error\<close>

text \<open>
  Looking \<open>K\<close> up in \<open>C\<close> while its entry is \<open>isCreating\<close> throws a new error whose message
  names the payload of the entry (the factory) and the key, and changes no entry. When
  the factory of \<open>K\<close> is such a lookup, in its own context or through the global context,
  and nothing catches the error, the lookup of \<open>K\<close> throws it and the entry becomes
  \<open>hasError\<close> with it; in every world in which the entry is still that one, every lookup
  throws the same object.
\<close>

theorem cycle_error_thrown:
  assumes reg: "prevs st c \<noteq> []"
  shows
    "cycle_msg en fv K = ''Factory '' @ val_str en fv @ '' didn't resolve '' @ key_str en K \<and>
     (\<forall>e. ents st c K = Some e \<and> ent_s e = isCreating \<longrightarrow>
        (\<forall>m. invoke en (Suc (Suc m)) c K st =
           Some (Throws (ErrObj (nobj st) Error (cycle_msg en (ent_v e) K)),
                 st\<lparr>nobj := Suc (nobj st)\<rparr>))) \<and>
     (\<forall>e g cont m.
        ents st c K = Some e \<and> ent_s e = hasFactory \<and>
        apply_fn en (ent_v e) c K = Use g K cont \<and> (g = c \<or> prevs st g = []) \<longrightarrow>
        (\<exists>st'. invoke en (Suc (Suc (Suc (Suc (Suc (Suc (Suc m))))))) c K st =
             Some (Throws (ErrObj (nobj st) Error (cycle_msg en (ent_v e) K)), st') \<and>
           ents st' c K =
             Some \<lparr>ent_s = hasError, ent_v = ErrObj (nobj st) Error (cycle_msg en (ent_v e) K),
                   ent_d = None\<rparr> \<and>
           (\<forall>en' m' st''. prevs st'' c \<noteq> [] \<and> ents st'' c K = ents st' c K \<longrightarrow>
              invoke en' (Suc (Suc m')) c K st'' =
                Some (Throws (ErrObj (nobj st) Error (cycle_msg en (ent_v e) K)), st''))))"
proof (intro conjI allI impI)
  show "cycle_msg en fv K = ''Factory '' @ val_str en fv @ '' didn't resolve '' @ key_str en K"
    by (simp add: cycle_msg_def)
next
  fix e m
  assume "ents st c K = Some e \<and> ent_s e = isCreating"
  with reg show "invoke en (Suc (Suc m)) c K st =
      Some (Throws (ErrObj (nobj st) Error (cycle_msg en (ent_v e) K)), st\<lparr>nobj := Suc (nobj st)\<rparr>)"
    by (simp add: invoke_isCreating)
next
  fix e g cont m
  assume a: "ents st c K = Some e \<and> ent_s e = hasFactory \<and>
        apply_fn en (ent_v e) c K = Use g K cont \<and> (g = c \<or> prevs st g = [])"
  let ?w = "enter c (Some []) (mod_entry c K (\<lambda>e. e\<lparr>ent_s := isCreating\<rparr>) st)"
  let ?x = "ErrObj (nobj st) Error (cycle_msg en (ent_v e) K)"
  have w: "prevs ?w c \<noteq> []" "ents ?w c K = Some (e\<lparr>ent_s := isCreating\<rparr>)" "ctx ?w = Some c"
    "nobj ?w = nobj st"
    using reg a by simp_all
  have i: "invoke en (Suc (Suc m)) c K ?w = Some (Throws ?x, ?w\<lparr>nobj := Suc (nobj st)\<rparr>)"
    using invoke_isCreating [OF w(1) w(2)] w(4) by simp
  have "invoke en (Suc (Suc (Suc m))) g K ?w = Some (Throws ?x, ?w\<lparr>nobj := Suc (nobj st)\<rparr>)"
  proof (cases "g = c")
    case True
    with invoke_isCreating [OF w(1) w(2), of en "Suc m"] w(4) show ?thesis
      by simp
  next
    case False
    with a have "prevs ?w g = []"
      by simp
    with w(3) i show ?thesis
      by (simp add: invoke_Suc)
  qed
  then have f: "run en (Suc (Suc (Suc (Suc m)))) (apply_fn en (ent_v e) c K) ?w =
      Some (Throws ?x, ?w\<lparr>nobj := Suc (nobj st)\<rparr>)"
    using a by (simp add: run_Use)
  from a have e: "ents st c K = Some e"
    by simp
  from resolve_throws_cached [OF e f] reg a
  show "\<exists>st'. invoke en (Suc (Suc (Suc (Suc (Suc (Suc (Suc m))))))) c K st =
             Some (Throws ?x, st') \<and>
           ents st' c K = Some \<lparr>ent_s = hasError, ent_v = ?x, ent_d = None\<rparr> \<and>
           (\<forall>en' m' st''. prevs st'' c \<noteq> [] \<and> ents st'' c K = ents st' c K \<longrightarrow>
              invoke en' (Suc (Suc m')) c K st'' = Some (Throws ?x, st''))"
    by auto
qed

theorem cycle_error_thrown_witness:
  "\<exists>st'. invoke demo_env (Suc (Suc (Suc (Suc (Suc (Suc (Suc 0))))))) 1 3 w_cycle =
            Some (Throws (ErrObj 0 Error ''Factory fn didn't resolve K''), st') \<and>
         ents st' 1 3 =
           Some \<lparr>ent_s = hasError, ent_v = ErrObj 0 Error ''Factory fn didn't resolve K'',
                 ent_d = None\<rparr> \<and>
         invoke demo_env (Suc (Suc 0)) 1 3 st' =
           Some (Throws (ErrObj 0 Error ''Factory fn didn't resolve K''), st')"
proof -
  let ?e = "\<lparr>ent_s = hasFactory, ent_v = Fn 3, ent_d = None\<rparr>"
  have reg: "prevs w_cycle 1 \<noteq> []"
    by (simp add: w_cycle_def)
  have e: "ents w_cycle 1 3 = Some ?e \<and> ent_s ?e = hasFactory \<and>
      apply_fn demo_env (ent_v ?e) 1 3 = Use 1 3 Return \<and> (1 = (1::nat) \<or> prevs w_cycle 1 = [])"
    by (simp add: w_cycle_def apply_fn_def)
  have n: "nobj w_cycle = 0"
    by (simp add: w_cycle_def)
  note T = cycle_error_thrown [OF reg, of demo_env "Fn 3" 3, THEN conjunct2, THEN conjunct2,
      rule_format, OF e, of 0]
  from T n obtain st' where
    a: "invoke demo_env (Suc (Suc (Suc (Suc (Suc (Suc (Suc 0))))))) 1 3 w_cycle =
          Some (Throws (ErrObj 0 Error ''Factory fn didn't resolve K''), st')"
    and b: "ents st' 1 3 =
          Some \<lparr>ent_s = hasError, ent_v = ErrObj 0 Error ''Factory fn didn't resolve K'',
                ent_d = None\<rparr>"
    and c: "\<forall>en' m' st''. prevs st'' 1 \<noteq> [] \<and> ents st'' 1 3 = ents st' 1 3 \<longrightarrow>
          invoke en' (Suc (Suc m')) 1 3 st'' =
            Some (Throws (ErrObj 0 Error ''Factory fn didn't resolve K''), st'')"
    by (auto simp: cycle_msg_def)
  from invoke_ext [OF a] reg have "prevs st' 1 \<noteq> []"
    by (auto dest: ext_regular)
  with a b c [rule_format, of st' demo_env 0] show ?thesis
    by blast
qed

end
